theory Spec2Isabelle
  imports Main "HOL-Library.Sublist" "HOL-Library.AList" "HOL-Library.Word"
begin

section \<open>JavaScript strings\<close>

text \<open>
  A JavaScript string is modelled as a \<^typ>\<open>string\<close>, one \<^typ>\<open>char\<close> per code unit.
  \<open>startsWith\<close>, \<open>endsWith\<close> and \<open>includesStr\<close> are the methods \<open>startsWith\<close>,
  \<open>endsWith\<close> and \<open>includes\<close> of \<open>String.prototype\<close>, with the receiver as first argument.
\<close>

fun startsWith :: "string \<Rightarrow> string \<Rightarrow> bool" where
  "startsWith s [] = True"
| "startsWith [] (p # ps) = False"
| "startsWith (c # cs) (p # ps) = (c = p \<and> startsWith cs ps)"

definition endsWith :: "string \<Rightarrow> string \<Rightarrow> bool" where
  "endsWith s p = startsWith (rev s) (rev p)"

fun includesStr :: "string \<Rightarrow> string \<Rightarrow> bool" where
  "includesStr [] p = (p = [])"
| "includesStr (c # cs) p = (startsWith (c # cs) p \<or> includesStr cs p)"

text \<open>
  \<open>GetSubstitution\<close> of ECMA-262 for a pattern without capture groups: in the replacement
  text \<open>$$\<close> stands for a dollar sign, \<open>$&\<close> for the matched text, \<open>$`\<close> for the text before
  the match and \<open>$'\<close> for the text after it; every other character stands for itself.
\<close>

fun getSubstitution :: "string \<Rightarrow> string \<Rightarrow> string \<Rightarrow> string \<Rightarrow> string" where
  "getSubstitution matched pre post [] = []"
| "getSubstitution matched pre post [c] = [c]"
| "getSubstitution matched pre post (c # d # r) =
     (if c = CHR ''$'' \<and> d = CHR ''$'' then CHR ''$'' # getSubstitution matched pre post r
      else if c = CHR ''$'' \<and> d = CHR ''&'' then matched @ getSubstitution matched pre post r
      else if c = CHR ''$'' \<and> d = CHR 0x60 then pre @ getSubstitution matched pre post r
      else if c = CHR ''$'' \<and> d = CHR 0x27 then post @ getSubstitution matched pre post r
      else c # getSubstitution matched pre post (d # r))"

text \<open>
  \<open>text.replace(new RegExp(escaped, "g"), replacement)\<close> where \<open>escaped\<close> is \<open>pat\<close> with
  every regular-expression syntax character preceded by a backslash
  (\<open>pat.replace(/[.*+?^${}()|[\]\\]/g, "\\$&")\<close>): the expression matches the text \<open>pat\<close>
  literally, the matches are taken from left to right without overlap, and the empty
  pattern matches once at every position including the end.  \<open>scanned\<close> is the part of the
  text already scanned.
\<close>

function replaceFrom :: "string \<Rightarrow> string \<Rightarrow> string \<Rightarrow> string \<Rightarrow> string" where
  "replaceFrom pat replacement scanned [] =
     (if pat = [] then getSubstitution [] scanned [] replacement else [])"
| "replaceFrom pat replacement scanned (c # cs) =
     (if pat = [] then
        getSubstitution [] scanned (c # cs) replacement @ c # replaceFrom pat replacement (scanned @ [c]) cs
      else if startsWith (c # cs) pat then
        getSubstitution pat scanned (drop (length pat) (c # cs)) replacement
          @ replaceFrom pat replacement (scanned @ pat) (drop (length pat) (c # cs))
      else c # replaceFrom pat replacement (scanned @ [c]) cs)"
  by pat_completeness auto
termination
  by (relation "measure (\<lambda>(pat, replacement, scanned, rest). length rest)") auto

definition replaceAll :: "string \<Rightarrow> string \<Rightarrow> string \<Rightarrow> string" where
  "replaceAll pat replacement text = replaceFrom pat replacement [] text"

section \<open>Paths\<close>

text \<open>
  \<open>basename\<close>, \<open>extname\<close>, \<open>dirname\<close> and \<open>join\<close> of the module \<open>@std/path\<close>, which the
  plugin imports, in their POSIX variant (the separator is the slash).  A path is split
  at the slashes into segments; \<open>normalizePath\<close> drops empty segments and \<open>.\<close>, and lets
  \<open>..\<close> cancel the segment before it.
\<close>

definition isSep :: "char \<Rightarrow> bool" where
  "isSep c = (c = CHR ''/'')"

definition stripTrailingSeparators :: "string \<Rightarrow> string" where
  "stripTrailingSeparators segment =
     (case segment of [] \<Rightarrow> [] | c # cs \<Rightarrow> c # rev (dropWhile isSep (rev cs)))"

definition lastPathSegment :: "string \<Rightarrow> string" where
  "lastPathSegment path =
     (let r = dropWhile isSep (rev path)
      in if r = [] then path else rev (takeWhile (\<lambda>c. \<not> isSep c) r))"

definition stripSuffix :: "string \<Rightarrow> string \<Rightarrow> string" where
  "stripSuffix name sfx =
     (if length sfx \<ge> length name then name
      else if endsWith name sfx then take (length name - length sfx) name
      else name)"

definition basename :: "string \<Rightarrow> string \<Rightarrow> string" where
  "basename path sfx =
     (let strippedSegment = stripTrailingSeparators (lastPathSegment path)
      in if sfx \<noteq> [] then stripSuffix strippedSegment sfx else strippedSegment)"

definition extname :: "string \<Rightarrow> string" where
  "extname path =
     (let r = takeWhile (\<lambda>c. \<not> isSep c) (dropWhile isSep (rev path));
          e = takeWhile (\<lambda>c. c \<noteq> CHR ''.'') r
      in if length e = length r then []
         else if drop (Suc (length e)) r = [] then []
         else if r = ''..'' then []
         else rev (take (Suc (length e)) r))"

definition dirname :: "string \<Rightarrow> string" where
  "dirname path =
     (case path of
        [] \<Rightarrow> ''.''
      | c # cs \<Rightarrow>
          (let r = dropWhile (\<lambda>c. \<not> isSep c) (dropWhile isSep (rev cs))
           in if r = [] then (if isSep c then ''/'' else ''.'')
              else stripTrailingSeparators (c # rev (tl r))))"

fun splitSegments :: "string \<Rightarrow> string \<Rightarrow> string list" where
  "splitSegments cur [] = [rev cur]"
| "splitSegments cur (c # cs) =
     (if isSep c then rev cur # splitSegments [] cs else splitSegments (c # cur) cs)"

fun normalizeSegments :: "bool \<Rightarrow> string list \<Rightarrow> string list \<Rightarrow> string list" where
  "normalizeSegments allowAboveRoot res [] = rev res"
| "normalizeSegments allowAboveRoot res (seg # segs) =
     (if seg = [] \<or> seg = ''.'' then normalizeSegments allowAboveRoot res segs
      else if seg = ''..'' then
        (case res of
           [] \<Rightarrow> normalizeSegments allowAboveRoot (if allowAboveRoot then [''..''] else []) segs
         | l # ls \<Rightarrow>
             if l = ''..''
             then normalizeSegments allowAboveRoot (if allowAboveRoot then ''..'' # res else res) segs
             else normalizeSegments allowAboveRoot ls segs)
      else normalizeSegments allowAboveRoot (seg # res) segs)"

fun joinWith :: "string \<Rightarrow> string list \<Rightarrow> string" where
  "joinWith sep [] = []"
| "joinWith sep [x] = x"
| "joinWith sep (x # y # ys) = x @ sep @ joinWith sep (y # ys)"

definition normalizePath :: "string \<Rightarrow> string" where
  "normalizePath path =
     (if path = [] then ''.''
      else
        let isAbsolute = isSep (hd path);
            trailingSeparator = isSep (last path);
            p = joinWith ''/'' (normalizeSegments (\<not> isAbsolute) [] (splitSegments [] path));
            p1 = (if p = [] \<and> \<not> isAbsolute then ''.'' else p);
            p2 = (if p1 \<noteq> [] \<and> trailingSeparator then p1 @ ''/'' else p1)
        in if isAbsolute then ''/'' @ p2 else p2)"

definition join :: "string \<Rightarrow> string \<Rightarrow> string" where
  "join dir name =
     (let joined = joinWith ''/'' (filter (\<lambda>p. p \<noteq> []) [dir, name])
      in if joined = [] then ''.'' else normalizePath joined)"

section \<open>The output bundle\<close>

text \<open>
  An entry of Rollup's \<open>OutputBundle\<close> is an asset, whose \<open>source\<close> is a string or a
  \<open>Uint8Array\<close>, or a chunk with its \<open>code\<close>, its \<open>imports\<close> and \<open>dynamicImports\<close> and
  Vite's optional \<open>viteMetadata\<close> (\<open>importedAssets\<close> and \<open>importedCss\<close>, in insertion order).
\<close>

datatype content = Str string | Bytes "8 word list"

datatype item =
    Asset (fileName: string) (source: content)
  | Chunk (fileName: string) (code: string) (imports_list: "string list")
      (dynamicImports: "string list") (viteMetadata: "(string list \<times> string list) option")

text \<open>
  The bundle is a JavaScript object: an association list with one pair for each property,
  in creation order.  \<open>bundle[k]\<close> is \<^const>\<open>map_of\<close>, \<open>bundle[k] = v\<close> is
  \<^const>\<open>AList.update\<close> (an existing property keeps its place, a new one goes last) and
  \<open>delete bundle[k]\<close> is \<^const>\<open>AList.delete\<close>.  \<open>Object.keys\<close> lists the array indices
  first, in ascending order, and then the other keys in creation order.
\<close>

type_synonym outputBundle = "(string \<times> item) list"

definition isDigit :: "char \<Rightarrow> bool" where
  "isDigit c = (48 \<le> (of_char c :: int) \<and> (of_char c :: int) \<le> 57)"

definition indexValue :: "string \<Rightarrow> int" where
  "indexValue s = foldl (\<lambda>n c. 10 * n + (of_char c - 48)) 0 s"

definition isArrayIndex :: "string \<Rightarrow> bool" where
  "isArrayIndex s =
     (s \<noteq> [] \<and> list_all isDigit s \<and> (s = ''0'' \<or> hd s \<noteq> CHR ''0'')
      \<and> indexValue s < 4294967295)"

definition ownEntries :: "(string \<times> 'a) list \<Rightarrow> (string \<times> 'a) list" where
  "ownEntries obj =
     sort_key (\<lambda>p. indexValue (fst p)) (filter (\<lambda>p. isArrayIndex (fst p)) obj)
       @ filter (\<lambda>p. \<not> isArrayIndex (fst p)) obj"

definition objectKeys :: "(string \<times> 'a) list \<Rightarrow> string list" where
  "objectKeys obj = map fst (ownEntries obj)"

section \<open>Dependency order\<close>

definition getDeps :: "outputBundle \<Rightarrow> string \<Rightarrow> string list" where
  "getDeps b fname =
     (case map_of b fname of
        None \<Rightarrow> []
      | Some (Asset _ _) \<Rightarrow> []
      | Some (Chunk _ _ imps dyns meta) \<Rightarrow>
          imps @ dyns @ (case meta of None \<Rightarrow> [] | Some (assets, css) \<Rightarrow> assets @ css))"

record dfs =
  sorted_acc :: "string list"
  visited :: "string set"
  visiting :: "string set"

text \<open>
  \<open>visit\<close> is the closure of the same name; \<open>visitDeps\<close> is its loop over the dependencies,
  which visits a dependency only when the bundle has it.
\<close>

function visit :: "outputBundle \<Rightarrow> string \<Rightarrow> dfs \<Rightarrow> dfs"
  and visitDeps :: "outputBundle \<Rightarrow> string list \<Rightarrow> dfs \<Rightarrow> dfs" where
  "visit b fname s =
     (if fname \<in> visited s then s
      else if fname \<in> visiting s then s
      else let s1 = visitDeps b (getDeps b fname) (s\<lparr>visiting := insert fname (visiting s)\<rparr>)
           in s1\<lparr>visiting := visiting s1 - {fname},
                 visited := insert fname (visited s1),
                 sorted_acc := sorted_acc s1 @ [fname]\<rparr>)"
| "visitDeps b [] s = s"
| "visitDeps b (dep # deps) s =
     (if map_of b dep \<noteq> None then visitDeps b deps (visit b dep s)
      else visitDeps b deps s)"
  by pat_completeness auto

lemma visit_partial_frame:
  "visit_visitDeps_dom (Inl (b, f, s)) \<Longrightarrow>
     visiting (visit b f s) = visiting s \<and> visited s \<subseteq> visited (visit b f s)"
  "visit_visitDeps_dom (Inr (b, ds, s)) \<Longrightarrow>
     visiting (visitDeps b ds s) = visiting s \<and> visited s \<subseteq> visited (visitDeps b ds s)"
proof (induction b f s and b ds s rule: visit_visitDeps.pinduct)
  case (1 b fname s)
  then show ?case
    by (auto simp: visit.psimps Let_def)
next
  case (2 b s)
  then show ?case by (simp add: visitDeps.psimps)
next
  case (3 b dep deps s)
  then show ?case
    by (simp add: visitDeps.psimps) blast
qed

definition unseen :: "outputBundle \<Rightarrow> dfs \<Rightarrow> nat" where
  "unseen b s = card (fst ` set b - (visited s \<union> visiting s))"

lemma unseen_mark:
  assumes "f \<in> fst ` set b" "f \<notin> visited s" "f \<notin> visiting s"
  shows "unseen b (s\<lparr>visiting := insert f (visiting s)\<rparr>) < unseen b s"
proof -
  have "fst ` set b - (visited s \<union> insert f (visiting s))
          \<subset> fst ` set b - (visited s \<union> visiting s)"
    using assms by auto
  then show ?thesis
    unfolding unseen_def by (simp add: psubset_card_mono)
qed

lemma unseen_mono:
  assumes "visiting s' = visiting s" "visited s \<subseteq> visited s'"
  shows "unseen b s' \<le> unseen b s"
  unfolding unseen_def using assms by (intro card_mono) auto

termination visit
proof (relation "inv_image (less_than <*lex*> less_than <*lex*> less_than)
    (\<lambda>x. case x of
        Inl (b, f, s) \<Rightarrow> (unseen b s, if f \<in> fst ` set b then 1 else 3, 0)
      | Inr (b, ds, s) \<Rightarrow> (unseen b s, 2::nat, length ds))", goal_cases)
  case 1
  show ?case by auto
next
  case (2 b fname s)
  show ?case
  proof (cases "fname \<in> fst ` set b")
    case True
    with 2 show ?thesis by (simp add: unseen_mark)
  next
    case False
    have "unseen b (s\<lparr>visiting := insert fname (visiting s)\<rparr>) = unseen b s"
      unfolding unseen_def using False
      by (intro arg_cong[where f=card]) auto
    with False show ?thesis by simp
  qed
next
  case (3 b dep deps s)
  then have "dep \<in> fst ` set b"
    by (auto dest: map_of_SomeD intro: rev_image_eqI)
  then show ?case by simp
next
  case (4 b dep deps s)
  from visit_partial_frame(1)[OF 4(2)]
  have "unseen b (visit b dep s) \<le> unseen b s"
    by (intro unseen_mono) auto
  then show ?case by auto
next
  case (5 b dep deps s)
  show ?case by simp
qed

text \<open>The loop \<open>for (const fileName of Object.keys(bundle)) visit(fileName)\<close>.\<close>

fun visitAll :: "outputBundle \<Rightarrow> string list \<Rightarrow> dfs \<Rightarrow> dfs" where
  "visitAll b [] s = s"
| "visitAll b (k # ks) s = visitAll b ks (visit b k s)"

definition topoSort :: "outputBundle \<Rightarrow> string list" where
  "topoSort b =
     sorted_acc (visitAll b (objectKeys b) \<lparr>sorted_acc = [], visited = {}, visiting = {}\<rparr>)"

text \<open>The declared dependency edges that stay inside the bundle.\<close>

definition depRel :: "outputBundle \<Rightarrow> (string \<times> string) set" where
  "depRel b = {(x, y). y \<in> set (getDeps b x) \<and> map_of b y \<noteq> None}"

text \<open>\<open>precedes xs y x\<close>: both occur in \<open>xs\<close>, and \<open>y\<close> occurs ahead of the first \<open>x\<close>.\<close>

definition precedes :: "'a list \<Rightarrow> 'a \<Rightarrow> 'a \<Rightarrow> bool" where
  "precedes xs y x = (x \<in> set xs \<and> y \<in> set (takeWhile (\<lambda>z. z \<noteq> x) xs))"

section \<open>The in-memory phase\<close>

text \<open>
  \<open>generateCID\<close> (module \<open>cid.ts\<close>) is a parameter of the model: a function from the
  content to the identifier.  The state of the hook is the bundle and the rename map
  \<open>fileMap\<close>, a JavaScript \<open>Map\<close>: an association list in insertion order, \<open>fileMap.set\<close>
  being \<^const>\<open>AList.update\<close> and \<open>fileMap.get\<close> being \<^const>\<open>map_of\<close>.
\<close>

text \<open>
  Exceptions are values.  \<open>OutsideModel\<close> is not an exception of the program: it marks an
  input that leaves the part of JSON and of regular expressions that is modelled here.
\<close>

datatype error = TypeError | SyntaxError | IOError | OutsideModel

text \<open>A loop whose body may throw: the first exception ends it.\<close>

fun foldE :: "('a \<Rightarrow> 's \<Rightarrow> error + 's) \<Rightarrow> 'a list \<Rightarrow> 's \<Rightarrow> error + 's" where
  "foldE f [] s = Inr s"
| "foldE f (x # xs) s = (case f x s of Inl e \<Rightarrow> Inl e | Inr s' \<Rightarrow> foldE f xs s')"

record state =
  outBundle :: outputBundle
  fileMap :: "(string \<times> string) list"

definition isManifestName :: "string \<Rightarrow> bool" where
  "isManifestName fname =
     (endsWith fname ''.json'' \<and> (includesStr fname ''manifest'' \<or> includesStr fname ''.vite''))"

definition manifestFiles :: "string list \<Rightarrow> string list" where
  "manifestFiles sorted_names = filter isManifestName sorted_names"

definition regularFiles :: "string list \<Rightarrow> string list" where
  "regularFiles sorted_names = filter (\<lambda>fname. \<not> isManifestName fname) sorted_names"

text \<open>
  The loop over \<open>fileMap\<close> that replaces the base name of every old name by the base name
  of its new name, once for each entry and in insertion order.
\<close>

definition rewriteRefs :: "(string \<times> string) list \<Rightarrow> string \<Rightarrow> string" where
  "rewriteRefs fm text =
     fold (\<lambda>(oldName, newName) c. replaceAll (basename oldName []) (basename newName []) c) fm text"

fun rewriteItem :: "(string \<times> string) list \<Rightarrow> item \<Rightarrow> item" where
  "rewriteItem fm (Asset n (Str s)) = Asset n (Str (rewriteRefs fm s))"
| "rewriteItem fm (Asset n (Bytes bs)) = Asset n (Bytes bs)"
| "rewriteItem fm (Chunk n c imps dyns meta) = Chunk n (rewriteRefs fm c) imps dyns meta"

fun contentOf :: "item \<Rightarrow> content" where
  "contentOf (Asset n src) = src"
| "contentOf (Chunk n c imps dyns meta) = Str c"

fun setFileName :: "string \<Rightarrow> item \<Rightarrow> item" where
  "setFileName n' (Asset n src) = Asset n' src"
| "setFileName n' (Chunk n c imps dyns meta) = Chunk n' c imps dyns meta"

definition newFileNameOf :: "(content \<Rightarrow> string) \<Rightarrow> string \<Rightarrow> content \<Rightarrow> string" where
  "newFileNameOf generateCID fname c =
     (let cid = generateCID c; ext = extname fname; dir = dirname fname
      in join dir (cid @ ext))"

text \<open>
  One round of the loop over the regular files.  Reading a property of \<open>bundle[fileName]\<close>
  when the bundle has no such key throws a \<open>TypeError\<close>.
\<close>

definition processRegular :: "(content \<Rightarrow> string) \<Rightarrow> string \<Rightarrow> state \<Rightarrow> error + state" where
  "processRegular generateCID fname st =
     (case map_of (outBundle st) fname of
        None \<Rightarrow> Inl TypeError
      | Some item0 \<Rightarrow>
          let item = rewriteItem (fileMap st) item0;
              b1 = AList.update fname item (outBundle st)
          in if endsWith fname ''.html'' then Inr (st\<lparr>outBundle := b1\<rparr>)
             else
               let newFileName = newFileNameOf generateCID fname (contentOf item)
               in if newFileName \<noteq> fname
                  then Inr \<lparr>outBundle = AList.update newFileName (setFileName newFileName item)
                                          (AList.delete fname b1),
                            fileMap = AList.update fname newFileName (fileMap st)\<rparr>
                  else Inr (st\<lparr>outBundle := b1\<rparr>))"

definition processRegularFiles ::
  "(content \<Rightarrow> string) \<Rightarrow> string list \<Rightarrow> state \<Rightarrow> error + state" where
  "processRegularFiles generateCID files st = foldE (processRegular generateCID) files st"

text \<open>
  One round of the loop that updates the source map references: for an entry whose old
  name ends in \<open>.map\<close>, the code of the chunk that the name without \<open>.map\<close> was renamed to.
\<close>

definition updateSourceMapRef ::
  "(string \<times> string) list \<Rightarrow> string \<times> string \<Rightarrow> outputBundle \<Rightarrow> outputBundle" where
  "updateSourceMapRef fm entry b =
     (case entry of (oldName, newName) \<Rightarrow>
        if endsWith oldName ''.map'' then
          (let sourceFile = take (length oldName - 4) oldName
           in case map_of fm sourceFile of
                None \<Rightarrow> b
              | Some newSourceFile \<Rightarrow>
                  if newSourceFile \<noteq> [] then
                    (case map_of b newSourceFile of
                       Some (Chunk n c imps dyns meta) \<Rightarrow>
                         AList.update newSourceFile
                           (Chunk n (replaceAll (basename oldName []) (basename newName []) c)
                              imps dyns meta) b
                     | _ \<Rightarrow> b)
                  else b)
        else b)"

definition updateSourceMaps :: "(string \<times> string) list \<Rightarrow> outputBundle \<Rightarrow> outputBundle" where
  "updateSourceMaps fm b = fold (updateSourceMapRef fm) fm b"

section \<open>JSON\<close>

text \<open>
  \<open>JSON.parse\<close>, \<open>JSON.stringify\<close> and \<open>Object.assign\<close> on JSON documents built from
  objects, arrays, strings, \<open>true\<close>, \<open>false\<close> and \<open>null\<close>.  A number, a \<open>\u\<close> escape, the
  key \<open>__proto__\<close> as an assigned property, and \<open>Object.assign\<close> between values of
  different kinds are \<open>OutsideModel\<close>.  \<open>parseValue\<close> takes the number of nested calls it may
  make; \<open>jsonParse\<close> gives it more than twice the length of the text, beyond which the
  number makes no difference (\<open>parse_fuel\<close> below).  An object is the association
  list of its properties in creation order, \<^const>\<open>ownEntries\<close> their enumeration order.
\<close>

datatype json = JNull | JBool bool | JString string | JArray "json list"
  | JObject "(string \<times> json) list"

definition isWhitespace :: "char \<Rightarrow> bool" where
  "isWhitespace c = (c = CHR '' '' \<or> c = CHR 0x09 \<or> c = CHR 0x0A \<or> c = CHR 0x0D)"

definition skipWs :: "string \<Rightarrow> string" where
  "skipWs s = dropWhile isWhitespace s"

fun parseString :: "string \<Rightarrow> string \<Rightarrow> error + (string \<times> string)" where
  "parseString acc [] = Inl SyntaxError"
| "parseString acc [c] = (if c = CHR 0x22 then Inr (rev acc, []) else Inl SyntaxError)"
| "parseString acc (c # e # r) =
     (if c = CHR 0x22 then Inr (rev acc, e # r)
      else if c = CHR 0x5C then
        (if e = CHR 0x22 \<or> e = CHR 0x5C \<or> e = CHR ''/'' then parseString (e # acc) r
         else if e = CHR ''b'' then parseString (CHR 0x08 # acc) r
         else if e = CHR ''f'' then parseString (CHR 0x0C # acc) r
         else if e = CHR ''n'' then parseString (CHR 0x0A # acc) r
         else if e = CHR ''r'' then parseString (CHR 0x0D # acc) r
         else if e = CHR ''t'' then parseString (CHR 0x09 # acc) r
         else if e = CHR ''u'' then Inl OutsideModel
         else Inl SyntaxError)
      else if (of_char c :: int) < 32 then Inl SyntaxError
      else parseString (c # acc) (e # r))"

fun parseValue :: "nat \<Rightarrow> string \<Rightarrow> error + (json \<times> string)"
  and parseElements :: "nat \<Rightarrow> json list \<Rightarrow> string \<Rightarrow> error + (json \<times> string)"
  and parseMembers :: "nat \<Rightarrow> (string \<times> json) list \<Rightarrow> string \<Rightarrow> error + (json \<times> string)" where
  "parseValue 0 s = Inl OutsideModel"
| "parseValue (Suc n) s =
     (case skipWs s of
        [] \<Rightarrow> Inl SyntaxError
      | c # cs \<Rightarrow>
          if c = CHR ''{'' then
            (case skipWs cs of
               [] \<Rightarrow> Inl SyntaxError
             | d # r \<Rightarrow> if d = CHR ''}'' then Inr (JObject [], r) else parseMembers n [] cs)
          else if c = CHR ''['' then
            (case skipWs cs of
               [] \<Rightarrow> Inl SyntaxError
             | d # r \<Rightarrow> if d = CHR '']'' then Inr (JArray [], r) else parseElements n [] cs)
          else if c = CHR 0x22 then
            (case parseString [] cs of
               Inl e \<Rightarrow> Inl e
             | Inr (str, r) \<Rightarrow> Inr (JString str, r))
          else if startsWith (c # cs) ''true'' then Inr (JBool True, drop 4 (c # cs))
          else if startsWith (c # cs) ''false'' then Inr (JBool False, drop 5 (c # cs))
          else if startsWith (c # cs) ''null'' then Inr (JNull, drop 4 (c # cs))
          else if c = CHR ''-'' \<or> isDigit c then Inl OutsideModel
          else Inl SyntaxError)"
| "parseElements 0 acc s = Inl OutsideModel"
| "parseElements (Suc n) acc s =
     (case parseValue n s of
        Inl e \<Rightarrow> Inl e
      | Inr (v, r) \<Rightarrow>
          (case skipWs r of
             [] \<Rightarrow> Inl SyntaxError
           | d # r' \<Rightarrow>
               if d = CHR '','' then parseElements n (v # acc) r'
               else if d = CHR '']'' then Inr (JArray (rev (v # acc)), r')
               else Inl SyntaxError))"
| "parseMembers 0 acc s = Inl OutsideModel"
| "parseMembers (Suc n) acc s =
     (case skipWs s of
        [] \<Rightarrow> Inl SyntaxError
      | q # r \<Rightarrow>
          if q \<noteq> CHR 0x22 then Inl SyntaxError
          else
            (case parseString [] r of
               Inl e \<Rightarrow> Inl e
             | Inr (k, r1) \<Rightarrow>
                 (case skipWs r1 of
                    [] \<Rightarrow> Inl SyntaxError
                  | colon # r2 \<Rightarrow>
                      if colon \<noteq> CHR '':'' then Inl SyntaxError
                      else
                        (case parseValue n r2 of
                           Inl e \<Rightarrow> Inl e
                         | Inr (v, r3) \<Rightarrow>
                             (case skipWs r3 of
                                [] \<Rightarrow> Inl SyntaxError
                              | d # r4 \<Rightarrow>
                                  if d = CHR '','' then parseMembers n (AList.update k v acc) r4
                                  else if d = CHR ''}''
                                  then Inr (JObject (AList.update k v acc), r4)
                                  else Inl SyntaxError)))))"

definition jsonParse :: "string \<Rightarrow> error + json" where
  "jsonParse s =
     (case parseValue (Suc (2 * length s)) s of
        Inl e \<Rightarrow> Inl e
      | Inr (v, r) \<Rightarrow> if skipWs r = [] then Inr v else Inl SyntaxError)"

definition hexDigit :: "nat \<Rightarrow> char" where
  "hexDigit n = ''0123456789abcdef'' ! (n mod 16)"

definition quoteChar :: "char \<Rightarrow> string" where
  "quoteChar c =
     (if c = CHR 0x22 then [CHR 0x5C, CHR 0x22]
      else if c = CHR 0x5C then [CHR 0x5C, CHR 0x5C]
      else if c = CHR 0x08 then [CHR 0x5C, CHR ''b'']
      else if c = CHR 0x0C then [CHR 0x5C, CHR ''f'']
      else if c = CHR 0x0A then [CHR 0x5C, CHR ''n'']
      else if c = CHR 0x0D then [CHR 0x5C, CHR ''r'']
      else if c = CHR 0x09 then [CHR 0x5C, CHR ''t'']
      else if (of_char c :: nat) < 32
      then [CHR 0x5C, CHR ''u'', CHR ''0'', CHR ''0'', hexDigit (of_char c div 16), hexDigit (of_char c)]
      else [c])"

definition quoteJSONString :: "string \<Rightarrow> string" where
  "quoteJSONString s = CHR 0x22 # concat (map quoteChar s) @ [CHR 0x22]"

lemma ownEntries_set: "set (ownEntries obj) = set obj"
  by (auto simp: ownEntries_def)

function stringify :: "json \<Rightarrow> string" where
  "stringify JNull = ''null''"
| "stringify (JBool b) = (if b then ''true'' else ''false'')"
| "stringify (JString s) = quoteJSONString s"
| "stringify (JArray vs) = ''['' @ joinWith '','' (map stringify vs) @ '']''"
| "stringify (JObject kvs) =
     ''{'' @ joinWith '','' (map (\<lambda>(k, v). quoteJSONString k @ '':'' @ stringify v) (ownEntries kvs))
       @ ''}''"
  by pat_completeness auto
termination stringify
proof (relation "measure size", goal_cases)
  case 1
  show ?case by simp
next
  case (2 vs x)
  then show ?case by (simp add: size_list_estimation' less_Suc_eq_le)
next
  case (3 kvs x xa y)
  then have "(xa, y) \<in> set kvs" by (simp add: ownEntries_set)
  then have "size y < Suc (size_list (size_prod (\<lambda>_. 0) size) kvs)"
    by (induction kvs) auto
  then show ?case by simp
qed

function stringifyPretty :: "string \<Rightarrow> json \<Rightarrow> string" where
  "stringifyPretty stepback JNull = ''null''"
| "stringifyPretty stepback (JBool b) = (if b then ''true'' else ''false'')"
| "stringifyPretty stepback (JString s) = quoteJSONString s"
| "stringifyPretty stepback (JArray vs) =
     (if vs = [] then ''[]''
      else
        let indent = stepback @ ''  ''
        in ''['' @ [CHR 0x0A] @ indent
             @ joinWith ('','' @ [CHR 0x0A] @ indent) (map (stringifyPretty indent) vs)
             @ [CHR 0x0A] @ stepback @ '']'')"
| "stringifyPretty stepback (JObject kvs) =
     (if kvs = [] then ''{}''
      else
        let indent = stepback @ ''  ''
        in ''{'' @ [CHR 0x0A] @ indent
             @ joinWith ('','' @ [CHR 0x0A] @ indent)
                 (map (\<lambda>(k, v). quoteJSONString k @ '': '' @ stringifyPretty indent v)
                    (ownEntries kvs))
             @ [CHR 0x0A] @ stepback @ ''}'')"
  by pat_completeness auto
termination stringifyPretty
proof (relation "measure (\<lambda>(stepback, v). size v)", goal_cases)
  case 1
  show ?case by simp
next
  case (2 stepback vs x xa)
  then show ?case by (simp add: size_list_estimation' less_Suc_eq_le)
next
  case (3 stepback kvs x xa xb y)
  then have "(xb, y) \<in> set kvs" by (simp add: ownEntries_set)
  then have "size y < Suc (size_list (size_prod (\<lambda>_. 0) size) kvs)"
    by (induction kvs) auto
  then show ?case by simp
qed

definition objectAssign :: "json \<Rightarrow> json \<Rightarrow> error + json" where
  "objectAssign target src =
     (case target of
        JNull \<Rightarrow> Inl TypeError
      | JObject t \<Rightarrow>
          (case src of
             JObject s \<Rightarrow>
               if ''__proto__'' \<in> fst ` set s then Inl OutsideModel
               else Inr (JObject (fold (\<lambda>(k, v) acc. AList.update k v acc) (ownEntries s) t))
           | _ \<Rightarrow> Inl OutsideModel)
      | JArray t \<Rightarrow>
          (case src of
             JArray s \<Rightarrow> Inr (JArray (s @ drop (length s) t))
           | _ \<Rightarrow> Inl OutsideModel)
      | _ \<Rightarrow> Inl OutsideModel)"

section \<open>Manifest files in memory\<close>

text \<open>
  One round of the loop inside the \<open>try\<close> block: the manifest is serialised, every
  occurrence of the old name in the text is replaced by the new name, and the parsed
  result is merged into the manifest with \<open>Object.assign\<close>.
\<close>

definition rewriteManifestEntry :: "string \<times> string \<Rightarrow> json \<Rightarrow> error + json" where
  "rewriteManifestEntry entry manifest =
     (case entry of (oldName, newName) \<Rightarrow>
        (let manifestStr = stringify manifest;
             updatedStr = replaceAll oldName newName manifestStr
         in (case jsonParse updatedStr of
               Inl e \<Rightarrow> Inl e
             | Inr parsed \<Rightarrow> objectAssign manifest parsed)))"

definition rewriteManifest :: "(string \<times> string) list \<Rightarrow> string \<Rightarrow> error + string" where
  "rewriteManifest fm content =
     (case jsonParse content of
        Inl e \<Rightarrow> Inl e
      | Inr manifest \<Rightarrow>
          (case foldE rewriteManifestEntry fm manifest of
             Inl e \<Rightarrow> Inl e
           | Inr m \<Rightarrow> Inr (stringifyPretty [] m)))"

text \<open>The \<open>catch\<close> block: the same replacements on the raw text.\<close>

definition rewriteManifestFallback :: "(string \<times> string) list \<Rightarrow> string \<Rightarrow> string" where
  "rewriteManifestFallback fm content =
     fold (\<lambda>(oldName, newName) c. replaceAll oldName newName c) fm content"

definition processManifest ::
  "(string \<times> string) list \<Rightarrow> string \<Rightarrow> outputBundle \<Rightarrow> error + outputBundle" where
  "processManifest fm fname b =
     (case map_of b fname of
        None \<Rightarrow> Inl TypeError
      | Some (Chunk n c imps dyns meta) \<Rightarrow> Inr b
      | Some (Asset n (Bytes bs)) \<Rightarrow> Inr b
      | Some (Asset n (Str content)) \<Rightarrow>
          (case rewriteManifest fm content of
             Inr content' \<Rightarrow> Inr (AList.update fname (Asset n (Str content')) b)
           | Inl OutsideModel \<Rightarrow> Inl OutsideModel
           | Inl _ \<Rightarrow> Inr (AList.update fname (Asset n (Str (rewriteManifestFallback fm content))) b)))"

definition processManifestFiles ::
  "(string \<times> string) list \<Rightarrow> string list \<Rightarrow> outputBundle \<Rightarrow> error + outputBundle" where
  "processManifestFiles fm files b = foldE (processManifest fm) files b"

text \<open>The hook \<open>generateBundle\<close>.\<close>

definition generateBundle :: "(content \<Rightarrow> string) \<Rightarrow> outputBundle \<Rightarrow> error + state" where
  "generateBundle generateCID b =
     (let sorted_names = topoSort b
      in case processRegularFiles generateCID (regularFiles sorted_names)
                \<lparr>outBundle = b, fileMap = []\<rparr> of
           Inl e \<Rightarrow> Inl e
         | Inr st \<Rightarrow>
             (case processManifestFiles (fileMap st) (manifestFiles sorted_names)
                     (updateSourceMaps (fileMap st) (outBundle st)) of
                Inl e \<Rightarrow> Inl e
              | Inr b' \<Rightarrow> Inr \<lparr>outBundle = b', fileMap = fileMap st\<rparr>))"

section \<open>The disk phase\<close>

text \<open>
  The regular expression \<open>new RegExp(`"(${dir}/[^"]+${ext.replace(".", "\\.")})"`, "g")\<close>
  is a sequence of atoms: a character of \<open>dir\<close> or \<open>ext\<close> stands for itself, an unescaped
  dot for any character but a line terminator, and \<open>[^"]+\<close> for a longest run of
  characters other than the double quote, shortened as far as the rest of the pattern
  needs.  Any other syntax character in \<open>dir\<close> or \<open>ext\<close> is \<open>OutsideModel\<close>.  \<open>matchAtoms\<close>
  gives the length of the match at the start of the text, \<open>matchAll\<close> the matches of
  \<open>String.prototype.match\<close> from left to right.
\<close>

datatype atom = Lit char | AnyChar | NotQuotePlus

definition isSyntaxCharacter :: "char \<Rightarrow> bool" where
  "isSyntaxCharacter c = (c \<in> set ''^$.*+?()[]{}|'' \<or> c = CHR 0x5C)"

fun atomsOf :: "string \<Rightarrow> error + atom list" where
  "atomsOf [] = Inr []"
| "atomsOf [c] =
     (if c = CHR ''.'' then Inr [AnyChar]
      else if isSyntaxCharacter c then Inl OutsideModel
      else Inr [Lit c])"
| "atomsOf (c # d # r) =
     (if c = CHR 0x5C \<and> d = CHR ''.'' then
        (case atomsOf r of Inl e \<Rightarrow> Inl e | Inr as \<Rightarrow> Inr (Lit CHR ''.'' # as))
      else if c = CHR ''.'' then
        (case atomsOf (d # r) of Inl e \<Rightarrow> Inl e | Inr as \<Rightarrow> Inr (AnyChar # as))
      else if isSyntaxCharacter c then Inl OutsideModel
      else (case atomsOf (d # r) of Inl e \<Rightarrow> Inl e | Inr as \<Rightarrow> Inr (Lit c # as)))"

fun escapeFirstDot :: "string \<Rightarrow> string" where
  "escapeFirstDot [] = []"
| "escapeFirstDot (c # cs) =
     (if c = CHR ''.'' then CHR 0x5C # CHR ''.'' # cs else c # escapeFirstDot cs)"

definition pathPattern :: "string \<Rightarrow> string \<Rightarrow> error + atom list" where
  "pathPattern dir ext =
     (case atomsOf dir of
        Inl e \<Rightarrow> Inl e
      | Inr ds \<Rightarrow>
          (case atomsOf (escapeFirstDot ext) of
             Inl e \<Rightarrow> Inl e
           | Inr es \<Rightarrow> Inr ([Lit (CHR 0x22)] @ ds @ [Lit CHR ''/'', NotQuotePlus] @ es @ [Lit (CHR 0x22)])))"

fun matchAtoms :: "atom list \<Rightarrow> string \<Rightarrow> nat option"
  and matchPlus :: "atom list \<Rightarrow> nat \<Rightarrow> string \<Rightarrow> nat option" where
  "matchAtoms [] s = Some 0"
| "matchAtoms (Lit c # as) s =
     (case s of [] \<Rightarrow> None
      | x # xs \<Rightarrow> if x = c then map_option Suc (matchAtoms as xs) else None)"
| "matchAtoms (AnyChar # as) s =
     (case s of [] \<Rightarrow> None
      | x # xs \<Rightarrow>
          if x = CHR 0x0A \<or> x = CHR 0x0D then None else map_option Suc (matchAtoms as xs))"
| "matchAtoms (NotQuotePlus # as) s =
     matchPlus as (length (takeWhile (\<lambda>c. c \<noteq> CHR 0x22) s)) s"
| "matchPlus as 0 s = None"
| "matchPlus as (Suc k) s =
     (case matchAtoms as (drop (Suc k) s) of
        Some n \<Rightarrow> Some (Suc k + n)
      | None \<Rightarrow> matchPlus as k s)"

function matchAll :: "atom list \<Rightarrow> string \<Rightarrow> string list" where
  "matchAll as [] = (case matchAtoms as [] of None \<Rightarrow> [] | Some n \<Rightarrow> [[]])"
| "matchAll as (c # cs) =
     (case matchAtoms as (c # cs) of
        None \<Rightarrow> matchAll as cs
      | Some n \<Rightarrow> take n (c # cs) # matchAll as (drop (max 1 n) (c # cs)))"
  by pat_completeness auto
termination matchAll
  by (relation "measure (\<lambda>(as, s). length s)") auto

text \<open>
  The files under the output directory, by path: a file has its text, and can be
  unreadable or read-only.  \<open>readFile\<close> fails on a missing or unreadable file;
  \<open>writeFile\<close> fails on a read-only one and leaves the files as they are.
\<close>

datatype diskFile = File (contents: string) (readable: bool) (writable: bool)

type_synonym fileSystem = "(string \<times> diskFile) list"

definition readFile :: "fileSystem \<Rightarrow> string \<Rightarrow> error + string" where
  "readFile fs filePath =
     (case map_of fs filePath of
        None \<Rightarrow> Inl IOError
      | Some f \<Rightarrow> if readable f then Inr (contents f) else Inl IOError)"

definition writeFile :: "fileSystem \<Rightarrow> string \<Rightarrow> string \<Rightarrow> error + fileSystem" where
  "writeFile fs filePath text =
     (case map_of fs filePath of
        None \<Rightarrow> Inr (AList.update filePath (File text True True) fs)
      | Some f \<Rightarrow>
          if writable f then Inr (AList.update filePath (File text (readable f) True) fs)
          else Inl IOError)"

text \<open>
  \<open>correctPath\<close> is one round of the loop over the matches, \<open>reconcileWith\<close> one round of
  the loop over the names of the bundle, \<open>reconcileFile\<close> the \<open>try\<close> block, and
  \<open>writeBundleFile\<close> one round of the loop over the manifest files with its \<open>catch\<close>.
\<close>

definition correctPath ::
  "outputBundle \<Rightarrow> string \<Rightarrow> string \<Rightarrow> json \<times> bool \<Rightarrow> error + json \<times> bool" where
  "correctPath b bundleFileName match acc =
     (case acc of (manifest, updated) \<Rightarrow>
        (let oldPath = take (length match - 2) (drop 1 match)
         in if map_of b oldPath = None \<and> oldPath \<noteq> bundleFileName then
              (case jsonParse (replaceAll oldPath bundleFileName (stringify manifest)) of
                 Inl e \<Rightarrow> Inl e
               | Inr parsed \<Rightarrow>
                   (case objectAssign manifest parsed of
                      Inl e \<Rightarrow> Inl e
                    | Inr manifest' \<Rightarrow> Inr (manifest', True)))
            else Inr (manifest, updated)))"

definition reconcileWith ::
  "outputBundle \<Rightarrow> string \<Rightarrow> json \<times> bool \<Rightarrow> error + json \<times> bool" where
  "reconcileWith b bundleFileName acc =
     (let base = basename bundleFileName (extname bundleFileName)
      in if startsWith base ''bafkrei'' then
           (let dir = dirname bundleFileName;
                ext = extname bundleFileName;
                manifestStr = stringify (fst acc)
            in case pathPattern dir ext of
                 Inl e \<Rightarrow> Inl e
               | Inr pattern \<Rightarrow>
                   foldE (correctPath b bundleFileName) (matchAll pattern manifestStr) acc)
         else Inr acc)"

definition reconcileFile :: "outputBundle \<Rightarrow> string \<Rightarrow> fileSystem \<Rightarrow> error + fileSystem" where
  "reconcileFile b filePath fs =
     (case readFile fs filePath of
        Inl e \<Rightarrow> Inl e
      | Inr content \<Rightarrow>
          (case jsonParse content of
             Inl e \<Rightarrow> Inl e
           | Inr manifest \<Rightarrow>
               (case foldE (reconcileWith b) (objectKeys b) (manifest, False) of
                  Inl e \<Rightarrow> Inl e
                | Inr (manifest', updated) \<Rightarrow>
                    if updated then writeFile fs filePath (stringifyPretty [] manifest')
                    else Inr fs)))"

definition writeBundleFile ::
  "string \<Rightarrow> outputBundle \<Rightarrow> string \<Rightarrow> fileSystem \<Rightarrow> error + fileSystem" where
  "writeBundleFile outDir b fname fs =
     (if \<not> endsWith fname ''.json'' then Inr fs
      else if \<not> (includesStr fname ''manifest'' \<or> includesStr fname ''.vite'') then Inr fs
      else
        (case reconcileFile b (join outDir fname) fs of
           Inr fs' \<Rightarrow> Inr fs'
         | Inl OutsideModel \<Rightarrow> Inl OutsideModel
         | Inl _ \<Rightarrow> Inr fs))"

definition writeBundle :: "string option \<Rightarrow> outputBundle \<Rightarrow> fileSystem \<Rightarrow> error + fileSystem" where
  "writeBundle dir b fs =
     (let outDir = (case dir of None \<Rightarrow> ''dist'' | Some d \<Rightarrow> if d = [] then ''dist'' else d)
      in foldE (writeBundleFile outDir b) (objectKeys b) fs)"

section \<open>Notions used in the proofs\<close>

text \<open>The invariant of the traversal: no name is both done and in progress, and the
  names emitted so far are the names done, each once.\<close>

definition dfsInv :: "dfs \<Rightarrow> bool" where
  "dfsInv s \<longleftrightarrow> visited s \<inter> visiting s = {} \<and> set (sorted_acc s) = visited s
     \<and> distinct (sorted_acc s)"

text \<open>\<open>ordered\<close>: in the names emitted so far, a dependency that does not reach its
  dependent back comes before it.\<close>

definition ordered :: "outputBundle \<Rightarrow> dfs \<Rightarrow> bool" where
  "ordered b s \<longleftrightarrow>
     (\<forall>x y. x \<in> set (sorted_acc s) \<longrightarrow> (x, y) \<in> depRel b \<longrightarrow> (y, x) \<notin> (depRel b)\<^sup>*
        \<longrightarrow> y \<in> set (takeWhile (\<lambda>z. z \<noteq> x) (sorted_acc s)))"

text \<open>\<open>renames\<close>: the round for \<open>f\<close> renames the artifact.\<close>

definition renames :: "(content \<Rightarrow> string) \<Rightarrow> string \<Rightarrow> state \<Rightarrow> item \<Rightarrow> bool" where
  "renames cid f st item0 \<longleftrightarrow>
     \<not> endsWith f ''.html''
     \<and> newFileNameOf cid f (contentOf (rewriteItem (fileMap st) item0)) \<noteq> f"

text \<open>What the loop over the source maps can change: the code of chunks whose key is a
  new name of the rename map.\<close>

fun eraseCode :: "item \<Rightarrow> item" where
  "eraseCode (Asset n src) = Asset n src"
| "eraseCode (Chunk n c imps dyns meta) = Chunk n [] imps dyns meta"

definition codeOnly :: "string set \<Rightarrow> outputBundle \<Rightarrow> outputBundle \<Rightarrow> bool" where
  "codeOnly K b b' \<longleftrightarrow>
     (\<forall>k. (k \<notin> K \<longrightarrow> map_of b' k = map_of b k)
        \<and> map_option eraseCode (map_of b' k) = map_option eraseCode (map_of b k))"

text \<open>What the loop over the manifest files can change: the text of string assets whose
  key is one of the manifest files.\<close>

fun eraseText :: "item \<Rightarrow> item" where
  "eraseText (Asset n (Str s)) = Asset n (Str [])"
| "eraseText (Asset n (Bytes bs)) = Asset n (Bytes bs)"
| "eraseText (Chunk n c imps dyns meta) = Chunk n c imps dyns meta"

definition textOnly :: "string set \<Rightarrow> outputBundle \<Rightarrow> outputBundle \<Rightarrow> bool" where
  "textOnly K b b' \<longleftrightarrow>
     (\<forall>k. (k \<notin> K \<longrightarrow> map_of b' k = map_of b k)
        \<and> map_option eraseText (map_of b' k) = map_option eraseText (map_of b k))"

text \<open>\<open>bytesFrom b b'\<close>: every raw-bytes content in \<open>b'\<close> is the content of a raw-bytes
  asset of \<open>b\<close>.\<close>

definition bytesFrom :: "outputBundle \<Rightarrow> outputBundle \<Rightarrow> bool" where
  "bytesFrom b b' \<longleftrightarrow>
     (\<forall>k m bs. map_of b' k = Some (Asset m (Bytes bs))
        \<longrightarrow> (\<exists>k0 m0. map_of b k0 = Some (Asset m0 (Bytes bs))))"

text \<open>\<open>pairedWith fm entry k\<close>: the entry is a source map whose chunk was renamed to \<open>k\<close>.\<close>

definition pairedWith :: "(string \<times> string) list \<Rightarrow> string \<times> string \<Rightarrow> string \<Rightarrow> bool" where
  "pairedWith fm entry k \<longleftrightarrow>
     endsWith (fst entry) ''.map''
     \<and> map_of fm (take (length (fst entry) - 4) (fst entry)) = Some k"

text \<open>\<open>pieces pat [] subject\<close>: the stretches of the subject between the matches of \<open>pat\<close> that
  a global replace finds, scanning from the left and resuming after each match.\<close>

function pieces :: "string \<Rightarrow> string \<Rightarrow> string \<Rightarrow> string list" where
  "pieces pat cur [] = [rev cur]"
| "pieces pat cur (c # cs) =
     (if pat \<noteq> [] \<and> startsWith (c # cs) pat
      then rev cur # pieces pat [] (drop (length pat) (c # cs))
      else pieces pat (c # cur) cs)"
  by pat_completeness auto
termination pieces
  by (relation "measure (\<lambda>(pat, cur, subject). length subject)") auto

section \<open>Example inputs\<close>

text \<open>
  Three artifacts: \<open>a.js\<close> and \<open>b.js\<close> import each other, and \<open>b.js\<close> also imports the
  asset \<open>c.css\<close>.
\<close>

definition cycleBundle :: outputBundle where
  "cycleBundle =
     [(''a.js'', Chunk ''a.js'' ''import b from ./b.js'' [''b.js''] [] None),
      (''b.js'', Chunk ''b.js'' ''import a from ./a.js'' [''a.js''] [] (Some ([], [''c.css'']))),
      (''c.css'', Asset ''c.css'' (Str ''body {}''))]"

text \<open>
  Modelled from the spec: the digest function \<open>generateCID\<close> of \<open>cid.ts\<close>, which is not
  among the sources.  The spec asks for a deterministic function from the content to a
  file-system-safe identifier with a fixed prefix, equal on equal contents and different
  on different ones; this one writes every byte as two letters after the prefix.
\<close>

definition sampleCID :: "content \<Rightarrow> string" where
  "sampleCID c =
     ''bafkrei'' @ concat (map (\<lambda>n. [''abcdefghijklmnop'' ! (n div 16), ''abcdefghijklmnop'' ! (n mod 16)])
        (case c of Str s \<Rightarrow> map of_char s | Bytes bs \<Rightarrow> map unat bs))"

definition entryBundle :: outputBundle where
  "entryBundle =
     [(''assets/main.js'', Chunk ''assets/main.js'' ''go()'' [] [] (Some ([''assets/bg.png''], []))),
      (''assets/bg.png'', Asset ''assets/bg.png'' (Bytes [137, 80])),
      (''index.html'', Asset ''index.html'' (Str ''<script src=assets/main.js>''))]"

definition sameBundle :: outputBundle where
  \<open>sameBundle =
     [(''a.js'', Chunk ''a.js'' ''log("same")'' [] [] None),
      (''b.js'', Chunk ''b.js'' ''log("same")'' [] [] None)]\<close>

text \<open>The state after \<open>generateBundle sampleCID entryBundle\<close>.\<close>

definition entryResult :: state where
  "entryResult =
     \<lparr>outBundle =
        [(''index.html'', Asset ''index.html'' (Str ''<script src=assets/bafkreighgpcicj.js>'')),
         (''assets/bafkreiijfa.png'', Asset ''assets/bafkreiijfa.png'' (Bytes [137, 80])),
         (''assets/bafkreighgpcicj.js'',
          Chunk ''assets/bafkreighgpcicj.js'' ''go()'' [] [] (Some ([''assets/bg.png''], [])))],
      fileMap =
        [(''assets/bg.png'', ''assets/bafkreiijfa.png''),
         (''assets/main.js'', ''assets/bafkreighgpcicj.js'')]\<rparr>"

text \<open>The states before and after the rounds for \<open>a.js\<close> and \<open>b.js\<close> of \<open>sameBundle\<close>.\<close>

definition sameState :: state where
  "sameState = \<lparr>outBundle = sameBundle, fileMap = []\<rparr>"

definition afterA :: state where
  \<open>afterA =
     \<lparr>outBundle =
        [(''b.js'', Chunk ''b.js'' ''log("same")'' [] [] None),
         (''bafkreigmgpghcicchdgbgngfcccj.js'',
          Chunk ''bafkreigmgpghcicchdgbgngfcccj.js'' ''log("same")'' [] [] None)],
      fileMap = [(''a.js'', ''bafkreigmgpghcicchdgbgngfcccj.js'')]\<rparr>\<close>

definition afterB :: state where
  \<open>afterB =
     \<lparr>outBundle =
        [(''bafkreigmgpghcicchdgbgngfcccj.js'',
          Chunk ''bafkreigmgpghcicchdgbgngfcccj.js'' ''log("same")'' [] [] None)],
      fileMap =
        [(''a.js'', ''bafkreigmgpghcicchdgbgngfcccj.js''),
         (''b.js'', ''bafkreigmgpghcicchdgbgngfcccj.js'')]\<rparr>\<close>

text \<open>
  A written bundle with one renamed chunk and four manifest files.  On disk the first is
  missing, the second is not JSON, the third is read-only and the fourth is writable;
  the last two still name the chunk by a path the bundle no longer has.
\<close>

definition diskBundle :: outputBundle where
  "diskBundle =
     [(''assets/bafkreiabc.js'', Chunk ''assets/bafkreiabc.js'' ''go()'' [] [] None),
      (''a/manifest.json'', Asset ''a/manifest.json'' (Str ''{}'')),
      (''b/manifest.json'', Asset ''b/manifest.json'' (Str ''{}'')),
      (''c/manifest.json'', Asset ''c/manifest.json'' (Str ''{}'')),
      (''.vite/manifest.json'', Asset ''.vite/manifest.json'' (Str ''{}''))]"

definition staleManifest :: string where
  \<open>staleManifest = ''{"main":{"file":"assets/main.js"}}''\<close>

definition disk :: fileSystem where
  "disk =
     [(''dist/b/manifest.json'', File ''{oops'' True True),
      (''dist/c/manifest.json'', File staleManifest True False),
      (''dist/.vite/manifest.json'', File staleManifest True True)]"

definition diskAfter :: fileSystem where
  "diskAfter =
     [(''dist/b/manifest.json'', File ''{oops'' True True),
      (''dist/c/manifest.json'', File staleManifest True False),
      (''dist/.vite/manifest.json'',
       File (stringifyPretty []
               (JObject [(''main'', JObject [(''file'', JString ''assets/bafkreiabc.js'')])]))
         True True)]"

text \<open>Two chunks that import each other, and the state after \<open>generateBundle\<close>.\<close>

definition importCycle :: outputBundle where
  \<open>importCycle =
     [(''a.js'', Chunk ''a.js'' ''import "./b.js"'' [''b.js''] [] None),
      (''b.js'', Chunk ''b.js'' ''import "./a.js"'' [''a.js''] [] None)]\<close>

definition importCycleResult :: state where
  \<open>importCycleResult =
     \<lparr>outBundle =
        [(''bafkreigjgnhagphchecacccocpgbcogkhdcc.js'',
          Chunk ''bafkreigjgnhagphchecacccocpgbcogkhdcc.js'' ''import "./a.js"'' [''a.js''] [] None),
         (''bafkreigjgnhagphchecacccocpgcgbggglhcgfgjghgkghgogigbghhagigdgigfgdgbgdgdgdgpgdhaghgcgdgpghglgigegdgdcogkhdcc.js'',
          Chunk ''bafkreigjgnhagphchecacccocpgcgbggglhcgfgjghgkghgogigbghhagigdgigfgdgbgdgdgdgpgdhaghgcgdgpghglgigegdgdcogkhdcc.js''
            ''import "./bafkreigjgnhagphchecacccocpgbcogkhdcc.js"'' [''b.js''] [] None)],
      fileMap =
        [(''b.js'', ''bafkreigjgnhagphchecacccocpgbcogkhdcc.js''),
         (''a.js'', ''bafkreigjgnhagphchecacccocpgcgbggglhcgfgjghgkghgogigbghhagigdgigfgdgbgdgdgdgpgdhaghgcgdgpghglgigegdgdcogkhdcc.js'')]\<rparr>\<close>

text \<open>
  Scenario 4 of the spec: a manifest that records \<open>main.js\<close> under the key \<open>main.js\<close>,
  with a digest function that names the chunk \<open>XYZ\<close>.
\<close>

definition manifestBundle :: outputBundle where
  \<open>manifestBundle =
     [(''main.js'', Chunk ''main.js'' ''go()'' [] [] None),
      (''manifest.json'', Asset ''manifest.json'' (Str ''{"main.js": {"file": "main.js"}}''))]\<close>

definition manifestText :: string where
  "manifestText =
     stringifyPretty []
       (JObject [(''main.js'', JObject [(''file'', JString ''main.js'')]),
                 (''XYZ.js'', JObject [(''file'', JString ''XYZ.js'')])])"

definition manifestResult :: state where
  "manifestResult =
     \<lparr>outBundle =
        [(''manifest.json'', Asset ''manifest.json'' (Str manifestText)),
         (''XYZ.js'', Chunk ''XYZ.js'' ''go()'' [] [] None)],
      fileMap = [(''main.js'', ''XYZ.js'')]\<rparr>"







text \<open>
  Two chunks with the same content, which names the second of them, and a third artifact
  that already has the name their digest gives; the state after \<open>generateBundle\<close>.
\<close>

definition selfRef :: outputBundle where
  "selfRef =
     [(''a.js'', Chunk ''a.js'' ''b.js'' [] [] None),
      (''b.js'', Chunk ''b.js'' ''b.js'' [] [] None),
      (''bafkreigccogkhd.js'', Chunk ''bafkreigccogkhd.js'' ''z'' [] [] None)]"

definition selfRefResult :: state where
  "selfRefResult =
     \<lparr>outBundle =
        [(''bafkreigcgbggglhcgfgjghgdgdgpghglgigecogkhd.js'',
          Chunk ''bafkreigcgbggglhcgfgjghgdgdgpghglgigecogkhd.js'' ''bafkreigccogkhd.js'' [] [] None)],
      fileMap =
        [(''a.js'', ''bafkreigccogkhd.js''),
         (''b.js'', ''bafkreigccogkhd.js''),
         (''bafkreigccogkhd.js'', ''bafkreigcgbggglhcgfgjghgdgdgpghglgigecogkhd.js'')]\<rparr>"

section \<open>Properties of the dependency order\<close>

declare visit.simps [simp del]

lemma objectKeys_set: "set (objectKeys obj) = fst ` set obj"
  by (simp add: objectKeys_def ownEntries_set)

lemma visit_fresh:
  assumes "f \<notin> visited s" "f \<notin> visiting s"
  shows "visit b f s =
    (let s1 = visitDeps b (getDeps b f) (s\<lparr>visiting := insert f (visiting s)\<rparr>)
     in s1\<lparr>visiting := visiting s1 - {f}, visited := insert f (visited s1),
           sorted_acc := sorted_acc s1 @ [f]\<rparr>)"
  using assms by (simp add: visit.simps)

lemma visit_seen: "f \<in> visited s \<or> f \<in> visiting s \<Longrightarrow> visit b f s = s"
  by (auto simp: visit.simps)

lemma visit_frame:
  "visiting (visit b f s) = visiting s \<and> visited s \<subseteq> visited (visit b f s)"
  "visiting (visitDeps b ds s) = visiting s \<and> visited s \<subseteq> visited (visitDeps b ds s)"
proof (induction b f s and b ds s rule: visit_visitDeps.induct)
  case (1 b fname s)
  show ?case
  proof (cases "fname \<in> visited s \<or> fname \<in> visiting s")
    case True
    then show ?thesis by (simp add: visit_seen)
  next
    case False
    with 1 show ?thesis by (auto simp: visit_fresh Let_def)
  qed
next
  case (2 b s)
  show ?case by simp
next
  case (3 b dep deps s)
  then show ?case by simp blast
qed

lemma visit_inv:
  "dfsInv s \<Longrightarrow> dfsInv (visit b f s)"
  "dfsInv s \<Longrightarrow> dfsInv (visitDeps b ds s)"
proof (induction b f s and b ds s rule: visit_visitDeps.induct)
  case (1 b fname s)
  show ?case
  proof (cases "fname \<in> visited s \<or> fname \<in> visiting s")
    case True
    with 1(2) show ?thesis by (simp add: visit_seen)
  next
    case False
    let ?ini = "s\<lparr>visiting := insert fname (visiting s)\<rparr>"
    let ?mid = "visitDeps b (getDeps b fname) ?ini"
    from False 1(2) have "dfsInv ?ini" by (auto simp: dfsInv_def)
    with 1(1) False have inv1: "dfsInv ?mid" by simp
    have "visiting ?mid = insert fname (visiting s)"
      using visit_frame(2)[of b "getDeps b fname" ?ini] by simp
    with inv1 show ?thesis
      using False by (auto simp: visit_fresh Let_def dfsInv_def)
  qed
next
  case (2 b s)
  then show ?case by simp
next
  case (3 b dep deps s)
  then show ?case by simp
qed

lemma visit_covers:
  "f \<in> visited (visit b f s) \<union> visiting s"
  "\<forall>d \<in> set ds. map_of b d \<noteq> None \<longrightarrow> d \<in> visited (visitDeps b ds s) \<union> visiting s"
proof (induction b f s and b ds s rule: visit_visitDeps.induct)
  case (1 b fname s)
  show ?case
    by (cases "fname \<in> visited s \<or> fname \<in> visiting s")
       (auto simp: visit_seen visit_fresh Let_def)
next
  case (2 b s)
  show ?case by simp
next
  case (3 b dep deps s)
  show ?case
  proof (cases "map_of b dep \<noteq> None")
    case True
    have a: "dep \<in> visited (visit b dep s) \<union> visiting s" using 3(1) True by simp
    have m: "visited (visit b dep s) \<subseteq> visited (visitDeps b deps (visit b dep s))"
      using visit_frame(2) by blast
    have v: "visiting (visit b dep s) = visiting s" using visit_frame(1) by blast
    from 3(2)[OF True] a m v True show ?thesis by auto
  next
    case False
    with 3(3) show ?thesis by auto
  qed
qed

lemma visit_within:
  "visited (visit b f s) \<subseteq> insert f (visited s \<union> fst ` set b)"
  "visited (visitDeps b ds s) \<subseteq> visited s \<union> fst ` set b"
proof (induction b f s and b ds s rule: visit_visitDeps.induct)
  case (1 b fname s)
  show ?case
  proof (cases "fname \<in> visited s \<or> fname \<in> visiting s")
    case True
    then show ?thesis by (auto simp: visit_seen)
  next
    case False
    with 1 show ?thesis by (auto simp: visit_fresh Let_def)
  qed
next
  case (2 b s)
  show ?case by simp
next
  case (3 b dep deps s)
  show ?case
  proof (cases "map_of b dep \<noteq> None")
    case True
    then have "dep \<in> fst ` set b" by (metis map_of_eq_None_iff)
    with 3(1,2) True show ?thesis by auto
  next
    case False
    with 3(3) show ?thesis by auto
  qed
qed

lemma visitAll_frame:
  "visiting (visitAll b ks s) = visiting s \<and> visited s \<subseteq> visited (visitAll b ks s)"
proof (induction ks arbitrary: s)
  case Nil
  show ?case by simp
next
  case (Cons k ks)
  from Cons[of "visit b k s"] visit_frame(1)[of b k s] show ?case by auto
qed

lemma visitAll_inv: "dfsInv s \<Longrightarrow> dfsInv (visitAll b ks s)"
  by (induction ks arbitrary: s) (simp_all add: visit_inv)

lemma visitAll_covers: "set ks \<subseteq> visited (visitAll b ks s) \<union> visiting s"
proof (induction ks arbitrary: s)
  case Nil
  show ?case by simp
next
  case (Cons k ks)
  have "k \<in> visited (visit b k s) \<union> visiting s" by (rule visit_covers(1))
  moreover have "visited (visit b k s) \<subseteq> visited (visitAll b ks (visit b k s))"
    using visitAll_frame by blast
  moreover have "visiting (visit b k s) = visiting s" using visit_frame(1) by blast
  ultimately show ?case using Cons[of "visit b k s"] by auto
qed

lemma visitAll_within:
  "set ks \<subseteq> fst ` set b \<Longrightarrow> visited (visitAll b ks s) \<subseteq> visited s \<union> fst ` set b"
proof (induction ks arbitrary: s)
  case Nil
  show ?case by simp
next
  case (Cons k ks)
  then have "visited (visitAll b ks (visit b k s)) \<subseteq> visited (visit b k s) \<union> fst ` set b"
    by simp
  with visit_within(1)[of b k s] Cons.prems show ?case by auto
qed

lemma takeWhile_snoc_mem:
  "x \<in> set xs \<Longrightarrow> takeWhile (\<lambda>z. z \<noteq> x) (xs @ [f]) = takeWhile (\<lambda>z. z \<noteq> x) xs"
  by (induction xs) auto

lemma takeWhile_snoc_fresh:
  "f \<notin> set xs \<Longrightarrow> takeWhile (\<lambda>z. z \<noteq> f) (xs @ [f]) = xs"
  by (induction xs) auto

lemma visit_ordered:
  "dfsInv s \<Longrightarrow> ordered b s \<Longrightarrow> (\<forall>v \<in> visiting s. (v, f) \<in> (depRel b)\<^sup>*)
     \<Longrightarrow> ordered b (visit b f s)"
  "dfsInv s \<Longrightarrow> ordered b s
     \<Longrightarrow> (\<forall>v \<in> visiting s. \<forall>d \<in> set ds. map_of b d \<noteq> None \<longrightarrow> (v, d) \<in> (depRel b)\<^sup>*)
     \<Longrightarrow> ordered b (visitDeps b ds s)"
proof (induction b f s and b ds s rule: visit_visitDeps.induct)
  case (1 b fname s)
  show ?case
  proof (cases "fname \<in> visited s \<or> fname \<in> visiting s")
    case True
    with 1(3) show ?thesis by (simp add: visit_seen)
  next
    case False
    let ?ini = "s\<lparr>visiting := insert fname (visiting s)\<rparr>"
    let ?mid = "visitDeps b (getDeps b fname) ?ini"
    from False 1(2) have inv0: "dfsInv ?ini" by (auto simp: dfsInv_def)
    have ord0: "ordered b ?ini" using 1(3) by (simp add: ordered_def)
    have stack0: "\<forall>v \<in> visiting ?ini. \<forall>d \<in> set (getDeps b fname).
        map_of b d \<noteq> None \<longrightarrow> (v, d) \<in> (depRel b)\<^sup>*"
    proof (intro ballI impI)
      fix v d assume v: "v \<in> visiting ?ini" and d: "d \<in> set (getDeps b fname)"
        and p: "map_of b d \<noteq> None"
      from d p have e: "(fname, d) \<in> depRel b" by (simp add: depRel_def)
      from v 1(4) have "(v, fname) \<in> (depRel b)\<^sup>*" by auto
      with e show "(v, d) \<in> (depRel b)\<^sup>*" by auto
    qed
    from 1(1)[OF _ _ inv0 ord0 stack0] False have ord1: "ordered b ?mid" by simp
    have inv1: "dfsInv ?mid" using inv0 by (rule visit_inv(2))
    have vis1: "visiting ?mid = insert fname (visiting s)"
      using visit_frame(2)[of b "getDeps b fname" ?ini] by simp
    have fresh: "fname \<notin> set (sorted_acc ?mid)"
      using inv1 vis1 by (auto simp: dfsInv_def)
    have cov: "\<forall>d \<in> set (getDeps b fname). map_of b d \<noteq> None
         \<longrightarrow> d \<in> visited ?mid \<union> insert fname (visiting s)"
      using visit_covers(2)[of "getDeps b fname" b ?ini] by simp
    have res: "sorted_acc (visit b fname s) = sorted_acc ?mid @ [fname]"
      using False by (simp add: visit_fresh Let_def)
    show ?thesis
      unfolding ordered_def res
    proof (intro allI impI)
      fix x y
      assume x: "x \<in> set (sorted_acc ?mid @ [fname])" and e: "(x, y) \<in> depRel b"
        and n: "(y, x) \<notin> (depRel b)\<^sup>*"
      show "y \<in> set (takeWhile (\<lambda>z. z \<noteq> x) (sorted_acc ?mid @ [fname]))"
      proof (cases "x \<in> set (sorted_acc ?mid)")
        case True
        with ord1 e n show ?thesis
          by (simp add: ordered_def takeWhile_snoc_mem)
      next
        case False
        with x have xf: "x = fname" by simp
        from e xf have d: "y \<in> set (getDeps b fname)" "map_of b y \<noteq> None"
          by (simp_all add: depRel_def)
        with cov have "y \<in> visited ?mid \<union> insert fname (visiting s)" by blast
        moreover have "y \<noteq> fname" using n xf by auto
        moreover have "y \<notin> visiting s" using n xf 1(4) by auto
        ultimately have "y \<in> visited ?mid" by auto
        then have "y \<in> set (sorted_acc ?mid)" using inv1 by (simp add: dfsInv_def)
        then show ?thesis using xf fresh by (simp add: takeWhile_snoc_fresh)
      qed
    qed
  qed
next
  case (2 b s)
  then show ?case by simp
next
  case (3 b dep deps s)
  show ?case
  proof (cases "map_of b dep \<noteq> None")
    case True
    have o: "ordered b (visit b dep s)"
      using "3.IH"(1)[OF True "3.prems"(1,2)] "3.prems"(3) True by simp
    have i: "dfsInv (visit b dep s)" using "3.prems"(1) by (rule visit_inv(1))
    have v: "visiting (visit b dep s) = visiting s" using visit_frame(1) by blast
    from "3.IH"(2)[OF True i o] "3.prems"(3) v True show ?thesis by simp
  next
    case False
    with "3.IH"(3)[OF _ "3.prems"(1,2)] "3.prems"(3) show ?thesis by simp
  qed
qed

lemma visitAll_ordered:
  "dfsInv s \<Longrightarrow> ordered b s \<Longrightarrow> visiting s = {} \<Longrightarrow> ordered b (visitAll b ks s)"
proof (induction ks arbitrary: s)
  case Nil
  then show ?case by simp
next
  case (Cons k ks)
  have "ordered b (visit b k s)" using Cons.prems by (intro visit_ordered(1)) auto
  moreover have "dfsInv (visit b k s)" using Cons.prems(1) by (rule visit_inv(1))
  moreover have "visiting (visit b k s) = {}"
    using visit_frame(1)[of b k s] Cons.prems(3) by simp
  ultimately show ?case using Cons.IH by simp
qed

lemma topoSort_final:
  "dfsInv (visitAll b (objectKeys b) \<lparr>sorted_acc = [], visited = {}, visiting = {}\<rparr>)"
  by (rule visitAll_inv) (simp add: dfsInv_def)

lemma topoSort_distinct: "distinct (topoSort b)"
  using topoSort_final[of b] by (simp add: topoSort_def dfsInv_def)

lemma topoSort_set: "set (topoSort b) = fst ` set b"
proof -
  let ?ini = "\<lparr>sorted_acc = [], visited = {}, visiting = {}\<rparr>"
  let ?s = "visitAll b (objectKeys b) ?ini"
  have keys: "set (objectKeys b) = fst ` set b" by (rule objectKeys_set)
  have sub: "visited ?s \<subseteq> fst ` set b"
    using visitAll_within[of "objectKeys b" b ?ini] keys by simp
  have sup: "set (objectKeys b) \<subseteq> visited ?s"
    using visitAll_covers[of "objectKeys b" b ?ini] by simp
  show ?thesis
    using topoSort_final[of b] sub sup keys by (auto simp: topoSort_def dfsInv_def)
qed

lemma topoSort_ordered:
  "ordered b (visitAll b (objectKeys b) \<lparr>sorted_acc = [], visited = {}, visiting = {}\<rparr>)"
  by (intro visitAll_ordered) (simp_all add: ordered_def dfsInv_def)

text \<open>
  C1.  The depth-first traversal is a total function (its termination is proved above,
  cycles or not).  The order it emits holds every artifact of the bundle exactly once,
  and whenever \<open>A\<close> declares a dependency \<open>B\<close> that the bundle has, and \<open>B\<close> does not
  reach \<open>A\<close> back along declared dependencies, \<open>B\<close> comes before \<open>A\<close>.
\<close>

theorem topoSort_linearization:
  "distinct (topoSort b) \<and> set (topoSort b) = set (objectKeys b)
   \<and> (\<forall>A B. A \<in> set (objectKeys b) \<longrightarrow> B \<in> set (getDeps b A) \<longrightarrow> map_of b B \<noteq> None
        \<longrightarrow> (B, A) \<notin> (depRel b)\<^sup>* \<longrightarrow> precedes (topoSort b) B A)"
proof -
  have set_eq: "set (topoSort b) = set (objectKeys b)"
    by (simp add: topoSort_set objectKeys_set)
  have "precedes (topoSort b) B A"
    if "A \<in> set (objectKeys b)" "B \<in> set (getDeps b A)" "map_of b B \<noteq> None"
      "(B, A) \<notin> (depRel b)\<^sup>*" for A B
  proof -
    from that have "(A, B) \<in> depRel b" by (simp add: depRel_def)
    moreover from that set_eq have "A \<in> set (topoSort b)" by simp
    ultimately show ?thesis
      using topoSort_ordered[of b] that(4)
      by (simp add: ordered_def precedes_def topoSort_def)
  qed
  then show ?thesis using set_eq topoSort_distinct by blast
qed

theorem topoSort_linearization_witness:
  "distinct (topoSort cycleBundle)
   \<and> set (topoSort cycleBundle) = {''a.js'', ''b.js'', ''c.css''}
   \<and> ''b.js'' \<in> set (objectKeys cycleBundle) \<and> ''c.css'' \<in> set (getDeps cycleBundle ''b.js'')
   \<and> map_of cycleBundle ''c.css'' \<noteq> None \<and> (''c.css'', ''b.js'') \<notin> (depRel cycleBundle)\<^sup>*
   \<and> precedes (topoSort cycleBundle) ''c.css'' ''b.js''"
proof -
  have k: "''b.js'' \<in> set (objectKeys cycleBundle)"
    by (simp add: objectKeys_set cycleBundle_def)
  have d: "''c.css'' \<in> set (getDeps cycleBundle ''b.js'')"
    by (simp add: getDeps_def cycleBundle_def)
  have m: "map_of cycleBundle ''c.css'' \<noteq> None"
    by (simp add: cycleBundle_def)
  have leaf: "(''c.css'', z) \<notin> depRel cycleBundle" for z
    by (simp add: depRel_def getDeps_def cycleBundle_def)
  have n: "(''c.css'', ''b.js'') \<notin> (depRel cycleBundle)\<^sup>*"
  proof
    assume "(''c.css'', ''b.js'') \<in> (depRel cycleBundle)\<^sup>*"
    then show False
      by (cases rule: converse_rtranclE) (simp_all add: leaf)
  qed
  have keys: "set (objectKeys cycleBundle) = {''a.js'', ''b.js'', ''c.css''}"
    by (simp add: objectKeys_set cycleBundle_def)
  from topoSort_linearization[of cycleBundle] k d m n keys show ?thesis
    by blast
qed

section \<open>Properties of the in-memory phase\<close>

lemma update_fresh_append:
  "k \<notin> fst ` set al \<Longrightarrow> AList.update k v al = al @ [(k, v)]"
  by (induction al) auto

lemma foldE_append:
  "foldE f (xs @ ys) s = (case foldE f xs s of Inl e \<Rightarrow> Inl e | Inr s' \<Rightarrow> foldE f ys s')"
  by (induction xs arbitrary: s) (auto split: sum.splits)

lemma rewriteItem_fileName [simp]: "fileName (rewriteItem fm it) = fileName it"
  by (cases "(fm, it)" rule: rewriteItem.cases) auto

lemma rewriteItem_bytes [simp]:
  "rewriteItem fm it = Asset n (Bytes bs) \<longleftrightarrow> it = Asset n (Bytes bs)"
  by (cases "(fm, it)" rule: rewriteItem.cases) auto

lemma setFileName_bytes [simp]:
  "setFileName n' it = Asset m (Bytes bs) \<longleftrightarrow> m = n' \<and> (\<exists>n. it = Asset n (Bytes bs))"
  by (cases "(n', it)" rule: setFileName.cases) auto

lemma processRegular_effect:
  fixes cid :: "content \<Rightarrow> string"
  assumes "map_of (outBundle st) f = Some item0"
  defines "item \<equiv> rewriteItem (fileMap st) item0"
  defines "new \<equiv> newFileNameOf cid f (contentOf (rewriteItem (fileMap st) item0))"
  shows "\<exists>st'. processRegular cid f st = Inr st'
     \<and> map_of (outBundle st') =
         (if renames cid f st item0
          then ((map_of (outBundle st))(f := None))(new \<mapsto> setFileName new item)
          else (map_of (outBundle st))(f \<mapsto> item))
     \<and> fileMap st' =
         (if renames cid f st item0 then AList.update f new (fileMap st) else fileMap st)"
  using assms
  by (auto simp: processRegular_def renames_def Let_def update_conv' delete_conv'
      fun_upd_twist)

lemma processRegular_None:
  "map_of (outBundle st) f = None \<Longrightarrow> processRegular cid f st = Inl TypeError"
  by (simp add: processRegular_def)

lemma regular_loop_effect:
  assumes "distinct fs" "fst ` set (fileMap st) \<inter> set fs = {}"
    "processRegularFiles cid fs st = Inr st'"
  shows "\<exists>added. fileMap st' = fileMap st @ added
      \<and> fst ` set added \<subseteq> {x \<in> set fs. \<not> endsWith x ''.html''}
      \<and> (\<forall>k. k \<notin> snd ` set added \<longrightarrow> k \<notin> set fs
            \<longrightarrow> map_of (outBundle st') k = map_of (outBundle st) k)
      \<and> (\<forall>k n bs. k \<notin> snd ` set added \<longrightarrow> k \<notin> fst ` set added
            \<longrightarrow> map_of (outBundle st) k = Some (Asset n (Bytes bs))
            \<longrightarrow> map_of (outBundle st') k = Some (Asset n (Bytes bs)))
      \<and> (\<forall>k. k \<in> dom (map_of (outBundle st)) \<longrightarrow> k \<notin> fst ` set added
            \<longrightarrow> k \<in> dom (map_of (outBundle st')))"
  using assms
proof (induction fs arbitrary: st)
  case Nil
  then show ?case by (simp add: processRegularFiles_def)
next
  case (Cons f fs)
  from Cons.prems(3) obtain st1 where
    step: "processRegular cid f st = Inr st1" and
    rest: "processRegularFiles cid fs st1 = Inr st'"
    by (auto simp: processRegularFiles_def split: sum.splits)
  from step obtain item0 where it: "map_of (outBundle st) f = Some item0"
    by (cases "map_of (outBundle st) f") (auto simp: processRegular_None)
  define item where "item = rewriteItem (fileMap st) item0"
  define new where "new = newFileNameOf cid f (contentOf item)"
  define a1 where "a1 = (if renames cid f st item0 then [(f, new)] else [])"
  from Cons.prems(2) have ffresh: "f \<notin> fst ` set (fileMap st)" by auto
  from processRegular_effect[OF it, of cid] step
  have b1: "map_of (outBundle st1) =
         (if renames cid f st item0
          then ((map_of (outBundle st))(f := None))(new \<mapsto> setFileName new item)
          else (map_of (outBundle st))(f \<mapsto> item))"
    and m1: "fileMap st1 = fileMap st @ a1"
    by (auto simp: item_def new_def a1_def update_fresh_append[OF ffresh])
  have a1_keys: "fst ` set a1 \<subseteq> {f}" "renames cid f st item0 \<longrightarrow> a1 = [(f, new)]"
    "\<not> renames cid f st item0 \<longrightarrow> a1 = []"
    by (auto simp: a1_def)
  have pre1: "fst ` set (fileMap st1) \<inter> set fs = {}"
    using Cons.prems(1,2) m1 a1_keys(1) by auto
  from Cons.IH[OF _ pre1 rest] Cons.prems(1) obtain a2 where
    m2: "fileMap st' = fileMap st1 @ a2" and
    k2: "fst ` set a2 \<subseteq> {x \<in> set fs. \<not> endsWith x ''.html''}" and
    fr2: "\<forall>k. k \<notin> snd ` set a2 \<longrightarrow> k \<notin> set fs
            \<longrightarrow> map_of (outBundle st') k = map_of (outBundle st1) k" and
    by2: "\<forall>k n bs. k \<notin> snd ` set a2 \<longrightarrow> k \<notin> fst ` set a2
            \<longrightarrow> map_of (outBundle st1) k = Some (Asset n (Bytes bs))
            \<longrightarrow> map_of (outBundle st') k = Some (Asset n (Bytes bs))" and
    dm2: "\<forall>k. k \<in> dom (map_of (outBundle st1)) \<longrightarrow> k \<notin> fst ` set a2
            \<longrightarrow> k \<in> dom (map_of (outBundle st'))"
    by auto
  have html: "renames cid f st item0 \<Longrightarrow> \<not> endsWith f ''.html''"
    by (simp add: renames_def)
  have newf: "renames cid f st item0 \<Longrightarrow> new \<noteq> f"
    by (simp add: renames_def new_def item_def)
  show ?case
  proof (intro exI[of _ "a1 @ a2"] conjI allI impI)
    show "fileMap st' = fileMap st @ a1 @ a2" using m1 m2 by simp
    show "fst ` set (a1 @ a2) \<subseteq> {x \<in> set (f # fs). \<not> endsWith x ''.html''}"
      using k2 html by (auto simp: a1_def)
  next
    fix k assume "k \<notin> snd ` set (a1 @ a2)" "k \<notin> set (f # fs)"
    then show "map_of (outBundle st') k = map_of (outBundle st) k"
      using fr2 b1 by (auto simp: a1_def split: if_splits)
  next
    fix k n bs
    assume t: "k \<notin> snd ` set (a1 @ a2)" and s: "k \<notin> fst ` set (a1 @ a2)"
      and v: "map_of (outBundle st) k = Some (Asset n (Bytes bs))"
    have "map_of (outBundle st1) k = Some (Asset n (Bytes bs))"
    proof (cases "k = f")
      case True
      with s have "\<not> renames cid f st item0" by (auto simp: a1_def)
      moreover from True v it have "item = Asset n (Bytes bs)" by (simp add: item_def)
      ultimately show ?thesis using b1 True by simp
    next
      case False
      with t v b1 show ?thesis by (auto simp: a1_def split: if_splits)
    qed
    with by2 t s show "map_of (outBundle st') k = Some (Asset n (Bytes bs))" by auto
  next
    fix k assume d: "k \<in> dom (map_of (outBundle st))" and s: "k \<notin> fst ` set (a1 @ a2)"
    have "k \<in> dom (map_of (outBundle st1))"
      using d s b1 by (auto simp: a1_def split: if_splits)
    with dm2 s show "k \<in> dom (map_of (outBundle st'))" by auto
  qed
qed

lemma regular_loop_total:
  assumes "distinct fs" "set fs \<subseteq> dom (map_of (outBundle st))"
  shows "\<exists>st'. processRegularFiles cid fs st = Inr st'"
  using assms
proof (induction fs arbitrary: st)
  case Nil
  show ?case by (simp add: processRegularFiles_def)
next
  case (Cons f fs)
  then obtain item0 where it: "map_of (outBundle st) f = Some item0" by auto
  from processRegular_effect[OF it, of cid] obtain st1 where
    step: "processRegular cid f st = Inr st1" and
    b1: "map_of (outBundle st1) =
         (if renames cid f st item0
          then ((map_of (outBundle st))(f := None))
                 (newFileNameOf cid f (contentOf (rewriteItem (fileMap st) item0))
                    \<mapsto> setFileName (newFileNameOf cid f (contentOf (rewriteItem (fileMap st) item0)))
                         (rewriteItem (fileMap st) item0))
          else (map_of (outBundle st))(f \<mapsto> rewriteItem (fileMap st) item0))"
    by blast
  have "set fs \<subseteq> dom (map_of (outBundle st1))"
    using Cons.prems b1 by (auto split: if_splits)
  with Cons.IH[of st1] Cons.prems(1) obtain st' where
    "processRegularFiles cid fs st1 = Inr st'" by auto
  with step show ?case by (simp add: processRegularFiles_def)
qed

lemma codeOnly_refl: "codeOnly K b b"
  by (simp add: codeOnly_def)

lemma codeOnly_trans: "codeOnly K b b' \<Longrightarrow> codeOnly K b' b'' \<Longrightarrow> codeOnly K b b''"
  by (simp add: codeOnly_def)

lemma map_of_ran_alist: "map_of fm k = Some v \<Longrightarrow> v \<in> snd ` set fm"
  by (metis map_of_SomeD snd_conv image_eqI)

lemma codeOnly_update:
  "map_of b k = Some (Chunk n c imps dyns meta) \<Longrightarrow> k \<in> K
     \<Longrightarrow> codeOnly K b (AList.update k (Chunk n c' imps dyns meta) b)"
  by (simp add: codeOnly_def update_conv')

lemma updateSourceMapRef_codeOnly:
  "codeOnly (snd ` set fm) b (updateSourceMapRef fm e b)"
proof (cases e)
  case (Pair oldName newName)
  show ?thesis
  proof (cases "endsWith oldName ''.map''")
    case False
    with Pair show ?thesis by (simp add: updateSourceMapRef_def codeOnly_refl)
  next
    case True
    show ?thesis
    proof (cases "map_of fm (take (length oldName - 4) oldName)")
      case None
      with Pair True show ?thesis by (simp add: updateSourceMapRef_def codeOnly_refl)
    next
      case (Some newSourceFile)
      then have k: "newSourceFile \<in> snd ` set fm" by (rule map_of_ran_alist)
      show ?thesis
      proof (cases "map_of b newSourceFile")
        case None
        with Pair True Some show ?thesis by (simp add: updateSourceMapRef_def codeOnly_refl)
      next
        case (Some it)
        note it = this
        show ?thesis
        proof (cases it)
          case (Asset n src)
          with Pair True \<open>map_of fm _ = Some newSourceFile\<close> it show ?thesis
            by (simp add: updateSourceMapRef_def codeOnly_refl)
        next
          case (Chunk n c imps dyns meta)
          with Pair True \<open>map_of fm _ = Some newSourceFile\<close> it k show ?thesis
            by (simp add: updateSourceMapRef_def codeOnly_refl codeOnly_update)
        qed
      qed
    qed
  qed
qed

lemma fold_updateSourceMapRef_codeOnly:
  "codeOnly (snd ` set fm) b (fold (updateSourceMapRef fm) es b)"
proof (induction es arbitrary: b)
  case Nil
  show ?case by (simp add: codeOnly_refl)
next
  case (Cons e es)
  show ?case
    using codeOnly_trans[OF updateSourceMapRef_codeOnly Cons.IH] by simp
qed

lemma updateSourceMaps_codeOnly: "codeOnly (snd ` set fm) b (updateSourceMaps fm b)"
  by (simp add: updateSourceMaps_def fold_updateSourceMapRef_codeOnly)

lemma textOnly_refl: "textOnly K b b"
  by (simp add: textOnly_def)

lemma textOnly_trans: "textOnly K b b' \<Longrightarrow> textOnly K b' b'' \<Longrightarrow> textOnly K b b''"
  by (simp add: textOnly_def)

lemma textOnly_mono: "textOnly K b b' \<Longrightarrow> K \<subseteq> L \<Longrightarrow> textOnly L b b'"
  unfolding textOnly_def by (meson subsetD)

lemma textOnly_update:
  "map_of b f = Some (Asset n (Str s)) \<Longrightarrow> textOnly {f} b (AList.update f (Asset n (Str s')) b)"
  by (simp add: textOnly_def update_conv')

lemma processManifest_textOnly:
  assumes "processManifest fm f b = Inr b'"
  shows "textOnly {f} b b'"
proof (cases "map_of b f")
  case None
  with assms show ?thesis by (simp add: processManifest_def)
next
  case (Some it)
  show ?thesis
  proof (cases it)
    case (Chunk n c imps dyns meta)
    with Some assms show ?thesis by (simp add: processManifest_def textOnly_refl)
  next
    case (Asset n src)
    show ?thesis
    proof (cases src)
      case (Bytes bs)
      with Some Asset assms show ?thesis by (simp add: processManifest_def textOnly_refl)
    next
      case (Str s)
      with Some Asset have l: "map_of b f = Some (Asset n (Str s))" by simp
      show ?thesis
      proof (cases "rewriteManifest fm s")
        case (Inr s')
        with l assms have "b' = AList.update f (Asset n (Str s')) b"
          by (simp add: processManifest_def)
        with l show ?thesis by (simp add: textOnly_update)
      next
        case (Inl e)
        with l assms have "b' = AList.update f (Asset n (Str (rewriteManifestFallback fm s))) b"
          by (cases e) (simp_all add: processManifest_def)
        with l show ?thesis by (simp add: textOnly_update)
      qed
    qed
  qed
qed

lemma processManifestFiles_textOnly:
  "processManifestFiles fm files b = Inr b' \<Longrightarrow> textOnly (set files) b b'"
proof (induction files arbitrary: b)
  case Nil
  then show ?case by (simp add: processManifestFiles_def textOnly_refl)
next
  case (Cons f files)
  then obtain b1 where s: "processManifest fm f b = Inr b1"
    and r: "processManifestFiles fm files b1 = Inr b'"
    by (auto simp: processManifestFiles_def split: sum.splits)
  from processManifest_textOnly[OF s] have "textOnly (set (f # files)) b b1"
    by (rule textOnly_mono) simp
  moreover from Cons.IH[OF r] have "textOnly (set (f # files)) b1 b'"
    by (rule textOnly_mono) auto
  ultimately show ?case by (rule textOnly_trans)
qed

lemma generateBundle_phases:
  assumes "generateBundle cid b = Inr st'"
  obtains st where
    "processRegularFiles cid (regularFiles (topoSort b)) \<lparr>outBundle = b, fileMap = []\<rparr> = Inr st"
    "processManifestFiles (fileMap st) (manifestFiles (topoSort b))
        (updateSourceMaps (fileMap st) (outBundle st)) = Inr (outBundle st')"
    "fileMap st' = fileMap st"
proof (cases "processRegularFiles cid (regularFiles (topoSort b)) \<lparr>outBundle = b, fileMap = []\<rparr>")
  case (Inl e)
  with assms show ?thesis by (simp add: generateBundle_def)
next
  case (Inr st)
  note r = this
  show ?thesis
  proof (cases "processManifestFiles (fileMap st) (manifestFiles (topoSort b))
        (updateSourceMaps (fileMap st) (outBundle st))")
    case (Inl e)
    with r assms show ?thesis by (simp add: generateBundle_def)
  next
    case (Inr b')
    with r assms have "st' = \<lparr>outBundle = b', fileMap = fileMap st\<rparr>"
      by (simp add: generateBundle_def)
    with r Inr that show ?thesis by simp
  qed
qed


lemma regularFiles_distinct: "distinct (regularFiles (topoSort b))"
  by (simp add: regularFiles_def topoSort_distinct)

lemma regularFiles_set:
  "set (regularFiles (topoSort b)) = {k \<in> fst ` set b. \<not> isManifestName k}"
  by (auto simp: regularFiles_def topoSort_set)

lemma manifestFiles_set:
  "set (manifestFiles (topoSort b)) = {k \<in> fst ` set b. isManifestName k}"
  by (auto simp: manifestFiles_def topoSort_set)

lemma map_of_dom_keys: "map_of b k = Some v \<Longrightarrow> k \<in> fst ` set b"
  by (metis map_of_eq_None_iff option.distinct(1))

lemma dom_map_of_keys: "k \<in> dom (map_of b) \<longleftrightarrow> k \<in> fst ` set b"
  by (simp add: dom_map_of_conv_image_fst)

lemma later_phases_bytes:
  assumes "processManifestFiles fm files (updateSourceMaps fm b1) = Inr b'"
  shows "map_of b' k = Some (Asset n (Bytes bs)) \<longleftrightarrow> map_of b1 k = Some (Asset n (Bytes bs))"
proof -
  have e: "map_option eraseCode x = map_option eraseCode y
      \<Longrightarrow> x = Some (Asset n (Bytes bs)) \<longleftrightarrow> y = Some (Asset n (Bytes bs))" for x y
    by (cases x; cases y) (auto elim: eraseCode.elims)
  have t: "map_option eraseText x = map_option eraseText y
      \<Longrightarrow> x = Some (Asset n (Bytes bs)) \<longleftrightarrow> y = Some (Asset n (Bytes bs))" for x y
    by (cases x; cases y) (auto elim: eraseText.elims)
  from updateSourceMaps_codeOnly[of fm b1]
  have "map_of (updateSourceMaps fm b1) k = Some (Asset n (Bytes bs))
      \<longleftrightarrow> map_of b1 k = Some (Asset n (Bytes bs))"
    by (intro e) (simp add: codeOnly_def)
  moreover from processManifestFiles_textOnly[OF assms]
  have "map_of b' k = Some (Asset n (Bytes bs))
      \<longleftrightarrow> map_of (updateSourceMaps fm b1) k = Some (Asset n (Bytes bs))"
    by (intro t) (simp add: textOnly_def)
  ultimately show ?thesis by simp
qed

lemma later_phases_dom:
  assumes "processManifestFiles fm files (updateSourceMaps fm b1) = Inr b'"
  shows "dom (map_of b') = dom (map_of b1)"
proof -
  have e: "map_option f x = map_option f y \<Longrightarrow> (x = None) = (y = None)" for f and x y :: "item option"
    by (cases x; cases y) auto
  from updateSourceMaps_codeOnly[of fm b1]
  have a: "(map_of (updateSourceMaps fm b1) k = None) = (map_of b1 k = None)" for k
    by (intro e[of eraseCode]) (simp add: codeOnly_def)
  from processManifestFiles_textOnly[OF assms]
  have c: "(map_of b' k = None) = (map_of (updateSourceMaps fm b1) k = None)" for k
    by (intro e[of eraseText]) (simp add: textOnly_def)
  show ?thesis using a c by (auto simp: dom_def)
qed

lemma precedes_split:
  assumes "f \<notin> set pre"
  shows "precedes (pre @ f # post) x f \<longleftrightarrow> x \<in> set pre"
proof -
  have "takeWhile (\<lambda>z. z \<noteq> f) (pre @ f # post) = pre"
    using assms by (induction pre) auto
  then show ?thesis by (simp add: precedes_def)
qed

lemma updateSourceMapRef_other:
  assumes "\<not> pairedWith fm e k"
  shows "map_of (updateSourceMapRef fm e b) k = map_of b k"
proof (cases e)
  case (Pair oldName newName)
  show ?thesis
  proof (cases "endsWith oldName ''.map''")
    case False
    with Pair show ?thesis by (simp add: updateSourceMapRef_def)
  next
    case True
    show ?thesis
    proof (cases "map_of fm (take (length oldName - 4) oldName)")
      case None
      with Pair True show ?thesis by (simp add: updateSourceMapRef_def)
    next
      case (Some newSourceFile)
      with assms Pair True have ne: "newSourceFile \<noteq> k" by (auto simp: pairedWith_def)
      show ?thesis
      proof (cases "map_of b newSourceFile")
        case None
        with Pair True Some show ?thesis by (simp add: updateSourceMapRef_def)
      next
        case (Some it)
        with Pair True \<open>map_of fm _ = Some newSourceFile\<close> ne show ?thesis
          by (cases it) (simp_all add: updateSourceMapRef_def update_conv')
      qed
    qed
  qed
qed

lemma fold_updateSourceMapRef_other:
  "\<forall>e \<in> set es. \<not> pairedWith fm e k
     \<Longrightarrow> map_of (fold (updateSourceMapRef fm) es b) k = map_of b k"
  by (induction es arbitrary: b) (simp_all add: updateSourceMapRef_other)

lemma updateSourceMaps_asset:
  assumes "map_of b k = Some (Asset n src)"
  shows "map_of (updateSourceMaps fm b) k = Some (Asset n src)"
proof -
  from updateSourceMaps_codeOnly[of fm b] assms
  have "map_option eraseCode (map_of (updateSourceMaps fm b) k) = Some (Asset n src)"
    by (simp add: codeOnly_def)
  then show ?thesis
    by (cases "map_of (updateSourceMaps fm b) k") (auto elim: eraseCode.elims)
qed

text \<open>What \<open>generateBundle\<close> does to one regular artifact: the entries of the rename map recorded
  before its turn, the entry made for it, and where it is stored in the end.\<close>

lemma regular_artifact_at_turn:
  assumes g: "generateBundle cid b = Inr st'"
    and a: "map_of b f = Some item" "\<not> isManifestName f"
    and h2: "f \<notin> snd ` set (fileMap st')"
  defines "fm1 \<equiv> filter (\<lambda>e. precedes (regularFiles (topoSort b)) (fst e) f) (fileMap st')"
  defines "new \<equiv> newFileNameOf cid f (contentOf (rewriteItem fm1 item))"
  defines "f' \<equiv> (case map_of (fileMap st') f of None \<Rightarrow> f | Some n \<Rightarrow> n)"
  shows "prefix fm1 (fileMap st')"
    and "map_of (fileMap st') f = (if \<not> endsWith f ''.html'' \<and> new \<noteq> f then Some new else None)"
    and "\<not> endsWith f ''.html'' \<Longrightarrow> new \<noteq> f \<Longrightarrow> map_of (outBundle st') f = None"
    and "(\<forall>old. (old, f') \<in> set (fileMap st')
            \<longrightarrow> old = f \<or> precedes (regularFiles (topoSort b)) old f)
         \<Longrightarrow> (f' \<noteq> f \<longrightarrow> f' \<notin> fst ` set b)
         \<Longrightarrow> (\<exists>n src. item = Asset n src) \<or> (\<forall>e \<in> set (fileMap st'). \<not> pairedWith (fileMap st') e f')
         \<Longrightarrow> map_of (outBundle st') f'
               = Some (if f' = f then rewriteItem fm1 item else setFileName f' (rewriteItem fm1 item))"
proof -
  let ?files = "regularFiles (topoSort b)"
  let ?ini = "\<lparr>outBundle = b, fileMap = []\<rparr>"
  let ?P = "\<lambda>e. precedes ?files (fst e) f"
  from g obtain st where
    reg: "processRegularFiles cid ?files ?ini = Inr st" and
    man: "processManifestFiles (fileMap st) (manifestFiles (topoSort b))
        (updateSourceMaps (fileMap st) (outBundle st)) = Inr (outBundle st')" and
    fm: "fileMap st' = fileMap st"
    by (rule generateBundle_phases)
  have fk: "f \<in> fst ` set b" using a(1) by (rule map_of_dom_keys)
  have fin: "f \<in> set ?files" using fk a(2) by (simp add: regularFiles_set)
  then obtain pre post where sp: "?files = pre @ f # post" by (meson split_list)
  with regularFiles_distinct[of b] have d: "distinct pre" "distinct post"
    "f \<notin> set pre" "f \<notin> set post" "set pre \<inter> set post = {}"
    by auto
  from reg sp obtain s1 s2 where
    l1: "processRegularFiles cid pre ?ini = Inr s1" and
    l2: "processRegular cid f s1 = Inr s2" and
    l3: "processRegularFiles cid post s2 = Inr st"
    by (auto simp: processRegularFiles_def foldE_append split: sum.splits)
  from regular_loop_effect[OF d(1) _ l1] obtain a1 where
    m1: "fileMap s1 = a1" and k1: "fst ` set a1 \<subseteq> set pre" and
    f1: "\<forall>k. k \<notin> snd ` set a1 \<longrightarrow> k \<notin> set pre
          \<longrightarrow> map_of (outBundle s1) k = map_of b k"
    by auto
  from l2 obtain it1 where i1: "map_of (outBundle s1) f = Some it1"
    by (cases "map_of (outBundle s1) f") (auto simp: processRegular_None)
  define new2 where "new2 = newFileNameOf cid f (contentOf (rewriteItem (fileMap s1) it1))"
  define a2 where "a2 = (if renames cid f s1 it1 then [(f, new2)] else [])"
  from processRegular_effect[OF i1, of cid] l2
  have b2: "map_of (outBundle s2) =
       (if renames cid f s1 it1
        then ((map_of (outBundle s1))(f := None))(new2 \<mapsto> setFileName new2 (rewriteItem (fileMap s1) it1))
        else (map_of (outBundle s1))(f \<mapsto> rewriteItem (fileMap s1) it1))"
    and m2: "fileMap s2 = (if renames cid f s1 it1 then AList.update f new2 (fileMap s1) else fileMap s1)"
    by (auto simp: new2_def)
  have ff: "f \<notin> fst ` set (fileMap s1)" using m1 k1 d(3) by auto
  have m2': "fileMap s2 = a1 @ a2"
    using m2 m1 update_fresh_append[OF ff] by (simp add: a2_def)
  have k2: "fst ` set a2 \<subseteq> {f}" by (auto simp: a2_def)
  have pre3: "fst ` set (fileMap s2) \<inter> set post = {}"
    using m2' k1 k2 d(4,5) by auto
  from regular_loop_effect[OF d(2) pre3 l3] obtain a3 where
    m3: "fileMap st = fileMap s2 @ a3" and
    k3: "fst ` set a3 \<subseteq> set post" and
    f3: "\<forall>k. k \<notin> snd ` set a3 \<longrightarrow> k \<notin> set post
          \<longrightarrow> map_of (outBundle st) k = map_of (outBundle s2) k"
    by auto
  have whole: "fileMap st' = a1 @ a2 @ a3"
    using fm m3 m2' by simp
  have n1: "map_of a1 f = None" using k1 d(3) by (auto simp: map_of_eq_None_iff)
  have n3: "map_of a3 f = None" using k3 d(4) by (auto simp: map_of_eq_None_iff)
  have P: "?P e \<longleftrightarrow> fst e \<in> set pre" for e
    unfolding sp using d(3) by (rule precedes_split)
  have "filter ?P a1 = a1" using k1 by (auto simp: P intro!: filter_True)
  moreover have "filter ?P a2 = []" using k2 d(3) by (auto simp: P filter_empty_conv)
  moreover have "filter ?P a3 = []" using k3 d(5) by (auto simp: P filter_empty_conv)
  ultimately have flt: "fm1 = a1" unfolding fm1_def whole by simp
  show "prefix fm1 (fileMap st')" unfolding flt whole by simp
  have "f \<notin> snd ` set a1" using h2 whole by auto
  with f1 d(3) a(1) i1 have it1: "it1 = item" by auto
  have n2: "new2 = new" by (simp add: new2_def new_def flt m1 it1)
  have rn: "renames cid f s1 it1 \<longleftrightarrow> \<not> endsWith f ''.html'' \<and> new \<noteq> f"
    by (simp add: renames_def new_def flt m1 it1)
  show look: "map_of (fileMap st') f = (if \<not> endsWith f ''.html'' \<and> new \<noteq> f then Some new else None)"
    unfolding whole using n1 n3 rn n2 by (simp add: map_add_def a2_def)
  show "map_of (outBundle st') f = None" if "\<not> endsWith f ''.html''" "new \<noteq> f"
  proof -
    from that rn have r: "renames cid f s1 it1" by simp
    with that(2) n2 have "new2 \<noteq> f" by simp
    with b2 r have "map_of (outBundle s2) f = None" by simp
    moreover have "f \<notin> snd ` set a3" using h2 whole by auto
    ultimately have "map_of (outBundle st) f = None" using f3 d(4) by simp
    then have "f \<notin> dom (map_of (outBundle st))" by (simp add: domIff)
    with later_phases_dom[OF man] have "f \<notin> dom (map_of (outBundle st'))" by simp
    then show ?thesis by (simp add: domIff)
  qed
  show "map_of (outBundle st') f'
        = Some (if f' = f then rewriteItem fm1 item else setFileName f' (rewriteItem fm1 item))"
    if h1: "\<forall>old. (old, f') \<in> set (fileMap st')
              \<longrightarrow> old = f \<or> precedes (regularFiles (topoSort b)) old f"
      and h3: "f' \<noteq> f \<longrightarrow> f' \<notin> fst ` set b"
      and h4: "(\<exists>n src. item = Asset n src) \<or> (\<forall>e \<in> set (fileMap st'). \<not> pairedWith (fileMap st') e f')"
  proof -
    have e: "f' = (if renames cid f s1 it1 then new else f)"
      unfolding f'_def look using rn by simp
    have ne: "renames cid f s1 it1 \<Longrightarrow> new \<noteq> f"
      using rn by simp
    let ?res = "if f' = f then rewriteItem a1 item else setFileName f' (rewriteItem a1 item)"
    have at2: "map_of (outBundle s2) f' = Some ?res"
      using b2 e ne it1 m1 n2 by (cases "renames cid f s1 it1") auto
    have "f' \<notin> snd ` set a3"
    proof
      assume "f' \<in> snd ` set a3"
      then obtain old where o: "(old, f') \<in> set a3" by auto
      then have "(old, f') \<in> set (fileMap st')" using whole by auto
      with h1 have "old = f \<or> old \<in> set pre" using P[of "(old, f')"] by auto
      moreover from o k3 have "old \<in> set post" by force
      ultimately show False using d(4,5) by auto
    qed
    moreover have "f' \<notin> set post"
    proof (cases "f' = f")
      case True
      with d(4) show ?thesis by simp
    next
      case False
      with h3 have "f' \<notin> fst ` set b" by simp
      moreover have "set post \<subseteq> fst ` set b"
        using regularFiles_set[of b] sp by auto
      ultimately show ?thesis by auto
    qed
    ultimately have at3: "map_of (outBundle st) f' = Some ?res"
      using f3 at2 by simp
    have at4: "map_of (updateSourceMaps (fileMap st) (outBundle st)) f' = Some ?res"
      using h4
    proof
      assume "\<exists>n src. item = Asset n src"
      then obtain n src where "item = Asset n src" by blast
      then have "\<exists>n' src'. ?res = Asset n' src'"
        by (cases src; cases "f' = f") simp_all
      then obtain n' src' where "?res = Asset n' src'" by blast
      with at3 updateSourceMaps_asset[of "outBundle st" f' n' src' "fileMap st"]
      show ?thesis by simp
    next
      assume "\<forall>e \<in> set (fileMap st'). \<not> pairedWith (fileMap st') e f'"
      with fold_updateSourceMapRef_other[of "fileMap st" "fileMap st" f' "outBundle st"] at3 fm
      show ?thesis by (simp add: updateSourceMaps_def)
    qed
    have "f' \<notin> set (manifestFiles (topoSort b))"
    proof (cases "f' = f")
      case True
      with a(2) show ?thesis by (simp add: manifestFiles_set)
    next
      case False
      with h3 show ?thesis by (simp add: manifestFiles_set)
    qed
    with processManifestFiles_textOnly[OF man] at4 show ?thesis
      unfolding flt by (simp add: textOnly_def)
  qed
qed





lemma processRegular_bytesFrom:
  assumes "processRegular cid f st = Inr st1" "bytesFrom b (outBundle st)"
  shows "bytesFrom b (outBundle st1)"
proof -
  from assms(1) obtain item0 where it: "map_of (outBundle st) f = Some item0"
    by (cases "map_of (outBundle st) f") (auto simp: processRegular_None)
  from processRegular_effect[OF it, of cid] assms(1)
  have b1: "map_of (outBundle st1) =
         (if renames cid f st item0
          then ((map_of (outBundle st))(f := None))
                 (newFileNameOf cid f (contentOf (rewriteItem (fileMap st) item0))
                    \<mapsto> setFileName (newFileNameOf cid f (contentOf (rewriteItem (fileMap st) item0)))
                         (rewriteItem (fileMap st) item0))
          else (map_of (outBundle st))(f \<mapsto> rewriteItem (fileMap st) item0))"
    by auto
  show ?thesis
    unfolding bytesFrom_def
  proof (intro allI impI)
    fix k m bs assume v: "map_of (outBundle st1) k = Some (Asset m (Bytes bs))"
    have "\<exists>k1 m1. map_of (outBundle st) k1 = Some (Asset m1 (Bytes bs))"
    proof (cases "renames cid f st item0")
      case True
      with v b1 it show ?thesis by (auto split: if_splits)
    next
      case False
      with v b1 it show ?thesis by (auto split: if_splits)
    qed
    with assms(2) show "\<exists>k0 m0. map_of b k0 = Some (Asset m0 (Bytes bs))"
      by (auto simp: bytesFrom_def)
  qed
qed

lemma regular_loop_bytesFrom:
  "processRegularFiles cid fs st = Inr st' \<Longrightarrow> bytesFrom b (outBundle st)
     \<Longrightarrow> bytesFrom b (outBundle st')"
proof (induction fs arbitrary: st)
  case Nil
  then show ?case by (simp add: processRegularFiles_def)
next
  case (Cons f fs)
  from Cons.prems(1) obtain st1 where
    step: "processRegular cid f st = Inr st1" and
    rest: "processRegularFiles cid fs st1 = Inr st'"
    by (auto simp: processRegularFiles_def split: sum.splits)
  from processRegular_bytesFrom[OF step Cons.prems(2)] Cons.IH[OF rest] show ?case by simp
qed

text \<open>
  C10.  An asset whose content is raw bytes keeps its bytes through \<open>generateBundle\<close>:
  it is found under its final name (the new name the rename map gives it, or its old
  name) with the same bytes, only the name field changed by a rename, provided no other
  artifact was renamed to its old or to its final name and the final name was not renamed
  again.  And every raw-bytes content of the final bundle is a raw-bytes content of the
  input: the rewriter creates or alters none.
\<close>

theorem bytes_asset_content_unchanged:
  assumes g: "generateBundle cid b = Inr st'"
    and a: "map_of b f = Some (Asset n (Bytes bs))"
  shows "(let fm = fileMap st'; f' = (case map_of fm f of None \<Rightarrow> f | Some new \<Rightarrow> new)
          in f \<notin> snd ` set fm \<longrightarrow> (\<forall>old. (old, f') \<in> set fm \<longrightarrow> old = f)
               \<longrightarrow> map_of fm f' = None
               \<longrightarrow> map_of (outBundle st') f' = Some (Asset (if f' = f then n else f') (Bytes bs)))
     \<and> (\<forall>k m bs'. map_of (outBundle st') k = Some (Asset m (Bytes bs'))
            \<longrightarrow> (\<exists>k0 m0. map_of b k0 = Some (Asset m0 (Bytes bs'))))"
proof -
  let ?files = "regularFiles (topoSort b)"
  let ?ini = "\<lparr>outBundle = b, fileMap = []\<rparr>"
  from g obtain st where
    reg: "processRegularFiles cid ?files ?ini = Inr st" and
    man: "processManifestFiles (fileMap st) (manifestFiles (topoSort b))
        (updateSourceMaps (fileMap st) (outBundle st)) = Inr (outBundle st')" and
    fm: "fileMap st' = fileMap st"
    by (rule generateBundle_phases)
  have origin: "\<exists>k0 m0. map_of b k0 = Some (Asset m0 (Bytes bs'))"
    if "map_of (outBundle st') k = Some (Asset m (Bytes bs'))" for k m bs'
  proof -
    have "bytesFrom b (outBundle st)"
      using regular_loop_bytesFrom[OF reg, of b] by (simp add: bytesFrom_def) blast
    moreover from that later_phases_bytes[OF man]
    have "map_of (outBundle st) k = Some (Asset m (Bytes bs'))" by simp
    ultimately show ?thesis by (auto simp: bytesFrom_def)
  qed
  have tracked: "map_of (outBundle st') f' = Some (Asset (if f' = f then n else f') (Bytes bs))"
    if f': "f' = (case map_of (fileMap st') f of None \<Rightarrow> f | Some new \<Rightarrow> new)"
      and h2: "f \<notin> snd ` set (fileMap st')"
      and h1: "\<forall>old. (old, f') \<in> set (fileMap st') \<longrightarrow> old = f"
      and h3: "map_of (fileMap st') f' = None" for f'
  proof (cases "map_of (fileMap st') f")
    case None
    with f' have e: "f' = f" by simp
    from regular_loop_effect[OF regularFiles_distinct _ reg]
    obtain added where ad: "fileMap st = added" and
      by1: "\<forall>k n bs. k \<notin> snd ` set added \<longrightarrow> k \<notin> fst ` set added
            \<longrightarrow> map_of b k = Some (Asset n (Bytes bs))
            \<longrightarrow> map_of (outBundle st) k = Some (Asset n (Bytes bs))"
      by auto
    from None fm ad have "f \<notin> fst ` set added" by (simp add: map_of_eq_None_iff)
    with by1 h2 fm ad a have "map_of (outBundle st) f = Some (Asset n (Bytes bs))" by auto
    with later_phases_bytes[OF man] e show ?thesis by simp
  next
    case (Some new)
    with f' have e: "f' = new" by simp
    from Some have mem: "(f, new) \<in> set (fileMap st)" using fm by (auto dest: map_of_SomeD)
    from regular_loop_effect[OF regularFiles_distinct _ reg]
    have "fst ` set (fileMap st) \<subseteq> set ?files" by auto
    with mem have "f \<in> set ?files" by force
    then obtain pre post where sp: "?files = pre @ f # post" by (meson split_list)
    with regularFiles_distinct[of b] have d: "distinct pre" "distinct post"
      "f \<notin> set pre" "f \<notin> set post" "set pre \<inter> set post = {}"
      by auto
    from reg sp obtain s1 s2 where
      l1: "processRegularFiles cid pre ?ini = Inr s1" and
      l2: "processRegular cid f s1 = Inr s2" and
      l3: "processRegularFiles cid post s2 = Inr st"
      by (auto simp: processRegularFiles_def foldE_append split: sum.splits)
    from regular_loop_effect[OF d(1) _ l1] obtain a1 where
      m1: "fileMap s1 = a1" and k1: "fst ` set a1 \<subseteq> set pre" and
      y1: "\<forall>k n bs. k \<notin> snd ` set a1 \<longrightarrow> k \<notin> fst ` set a1
            \<longrightarrow> map_of b k = Some (Asset n (Bytes bs))
            \<longrightarrow> map_of (outBundle s1) k = Some (Asset n (Bytes bs))"
      by auto
    from l2 obtain it1 where i1: "map_of (outBundle s1) f = Some it1"
      by (cases "map_of (outBundle s1) f") (auto simp: processRegular_None)
    define new2 where "new2 = newFileNameOf cid f (contentOf (rewriteItem (fileMap s1) it1))"
    from processRegular_effect[OF i1, of cid] l2
    have b2: "map_of (outBundle s2) =
         (if renames cid f s1 it1
          then ((map_of (outBundle s1))(f := None))(new2 \<mapsto> setFileName new2 (rewriteItem (fileMap s1) it1))
          else (map_of (outBundle s1))(f \<mapsto> rewriteItem (fileMap s1) it1))"
      and m2: "fileMap s2 = (if renames cid f s1 it1 then AList.update f new2 (fileMap s1) else fileMap s1)"
      by (auto simp: new2_def)
    have ff: "f \<notin> fst ` set (fileMap s1)" using m1 k1 d(3) by auto
    have m2': "fileMap s2 = a1 @ (if renames cid f s1 it1 then [(f, new2)] else [])"
      using m2 m1 update_fresh_append[OF ff] by simp
    have pre3: "fst ` set (fileMap s2) \<inter> set post = {}"
      using m2' k1 d(4,5) by (auto split: if_splits)
    from regular_loop_effect[OF d(2) pre3 l3] obtain a3 where
      m3: "fileMap st = fileMap s2 @ a3" and
      k3: "fst ` set a3 \<subseteq> set post" and
      y3: "\<forall>k n bs. k \<notin> snd ` set a3 \<longrightarrow> k \<notin> fst ` set a3
            \<longrightarrow> map_of (outBundle s2) k = Some (Asset n (Bytes bs))
            \<longrightarrow> map_of (outBundle st) k = Some (Asset n (Bytes bs))"
      by auto
    have whole: "fileMap st' = a1 @ (if renames cid f s1 it1 then [(f, new2)] else []) @ a3"
      using fm m3 m2' by simp
    from mem fm have "(f, new) \<in> set (fileMap st')" by simp
    then have "(f, new) \<in> set (a1 @ (if renames cid f s1 it1 then [(f, new2)] else []) @ a3)"
      unfolding whole .
    moreover have "(f, new) \<notin> set a1" using k1 d(3) by force
    moreover have "(f, new) \<notin> set a3" using k3 d(4) by force
    ultimately have rn: "renames cid f s1 it1" and nn: "new2 = new"
      by (auto split: if_splits)
    have "f \<notin> snd ` set a1" using h2 whole by auto
    with y1 a ff m1 have "map_of (outBundle s1) f = Some (Asset n (Bytes bs))" by auto
    with i1 have it1: "it1 = Asset n (Bytes bs)" by simp
    from b2 rn nn it1 have at2: "map_of (outBundle s2) new = Some (Asset new (Bytes bs))"
      by simp
    have "new \<notin> snd ` set a3"
    proof
      assume "new \<in> snd ` set a3"
      then obtain old where o: "(old, new) \<in> set a3" by auto
      then have "(old, f') \<in> set (fileMap st')" using whole e by auto
      with h1 have "old = f" by simp
      with o k3 d(4) show False by force
    qed
    moreover have "new \<notin> fst ` set a3"
      using h3 e whole by (auto simp: map_of_eq_None_iff)
    ultimately have "map_of (outBundle st) new = Some (Asset new (Bytes bs))"
      using y3 at2 by auto
    moreover have "new \<noteq> f" using rn nn by (simp add: renames_def new2_def)
    ultimately show ?thesis using later_phases_bytes[OF man] e by simp
  qed
  show ?thesis
    unfolding Let_def using tracked origin by blast
qed

text \<open>
  C5.  The round for an artifact that is not an HTML document digests the content as
  rewritten with the rename map built so far, and computes the new name as the directory
  of the old name joined with the digest followed by the extension of the old name.  When
  the new name differs from the old one the artifact, with its name field updated, is
  stored under the new name, the old key is gone and the rename map sends the old name
  to the new one; when they are equal the artifact stays and the rename map is unchanged.
  Over the whole of \<open>generateBundle\<close>: for a regular artifact that is not an HTML document
  (and to whose name no other artifact was renamed) the final rename map has an entry
  exactly when the name so computed, from the content rewritten with the entries recorded
  before its turn, differs from its name, and the entry is that name.
\<close>

theorem processRegular_digest_name:
  "(map_of (outBundle st) fname = Some stored \<longrightarrow> \<not> endsWith fname ''.html'' \<longrightarrow>
      (\<exists>st'. processRegular generateCID fname st = Inr st' \<and>
        (let item = rewriteItem (fileMap st) stored;
             newFileName = join (dirname fname) (generateCID (contentOf item) @ extname fname)
         in (newFileName \<noteq> fname \<longrightarrow>
               map_of (outBundle st') newFileName = Some (setFileName newFileName item)
               \<and> map_of (outBundle st') fname = None
               \<and> map_of (fileMap st') fname = Some newFileName)
          \<and> (newFileName = fname \<longrightarrow>
               map_of (outBundle st') fname = Some item \<and> fileMap st' = fileMap st))))
   \<and> (generateBundle generateCID b = Inr final \<longrightarrow> map_of b f = Some it
        \<longrightarrow> \<not> isManifestName f \<longrightarrow> \<not> endsWith f ''.html''
        \<longrightarrow> f \<notin> snd ` set (fileMap final) \<longrightarrow>
        (let applied = filter (\<lambda>e. precedes (regularFiles (topoSort b)) (fst e) f) (fileMap final);
             newFileName = join (dirname f)
                             (generateCID (contentOf (rewriteItem applied it)) @ extname f)
         in map_of (fileMap final) f = (if newFileName \<noteq> f then Some newFileName else None)))"
proof (intro conjI impI)
  assume l: "map_of (outBundle st) fname = Some stored" and h: "\<not> endsWith fname ''.html''"
  from processRegular_effect[OF l, of generateCID] h
  show "\<exists>st'. processRegular generateCID fname st = Inr st' \<and>
        (let item = rewriteItem (fileMap st) stored;
             newFileName = join (dirname fname) (generateCID (contentOf item) @ extname fname)
         in (newFileName \<noteq> fname \<longrightarrow>
               map_of (outBundle st') newFileName = Some (setFileName newFileName item)
               \<and> map_of (outBundle st') fname = None
               \<and> map_of (fileMap st') fname = Some newFileName)
          \<and> (newFileName = fname \<longrightarrow>
               map_of (outBundle st') fname = Some item \<and> fileMap st' = fileMap st))"
    by (auto simp: renames_def newFileNameOf_def Let_def update_conv')
next
  assume g: "generateBundle generateCID b = Inr final" and a: "map_of b f = Some it"
    "\<not> isManifestName f" and h: "\<not> endsWith f ''.html''" and t: "f \<notin> snd ` set (fileMap final)"
  from regular_artifact_at_turn(2)[OF g a t] h
  show "let applied = filter (\<lambda>e. precedes (regularFiles (topoSort b)) (fst e) f) (fileMap final);
             newFileName = join (dirname f)
                             (generateCID (contentOf (rewriteItem applied it)) @ extname f)
         in map_of (fileMap final) f = (if newFileName \<noteq> f then Some newFileName else None)"
    by (simp add: Let_def newFileNameOf_def)
qed

lemma distinct_key_once:
  "distinct (map fst al) \<Longrightarrow> k \<in> fst ` set al \<Longrightarrow> length (filter (\<lambda>p. fst p = k) al) = 1"
proof (induction al)
  case Nil
  then show ?case by simp
next
  case (Cons p al)
  show ?case
  proof (cases "fst p = k")
    case True
    with Cons.prems have "k \<notin> fst ` set al" by auto
    then have "\<forall>q \<in> set al. fst q \<noteq> k" by auto
    then have "filter (\<lambda>q. fst q = k) al = []"
      by (simp add: filter_empty_conv)
    with True show ?thesis by simp
  next
    case False
    with Cons show ?thesis by auto
  qed
qed

text \<open>
  C4.  Two artifacts whose contents are equal when each is digested get names made of
  the same digest, each with its own directory and extension.  Neither round fails,
  whether or not the new name is already a key of the bundle; each artifact is stored
  under its new name, and when that differs from the old name the rename map sends the
  old name to it.  The loop over the regular files as a whole fails for no bundle.
\<close>

theorem identical_content_identical_digest_name:
  assumes "map_of (outBundle sa) A = Some ia" "map_of (outBundle sb) B = Some ib"
    and "\<not> endsWith A ''.html''" "\<not> endsWith B ''.html''"
    and "contentOf (rewriteItem (fileMap sa) ia) = contentOf (rewriteItem (fileMap sb) ib)"
  shows "(let d = cid (contentOf (rewriteItem (fileMap sa) ia));
              newA = join (dirname A) (d @ extname A);
              newB = join (dirname B) (d @ extname B)
          in \<exists>sa' sb'. processRegular cid A sa = Inr sa' \<and> processRegular cid B sb = Inr sb'
               \<and> map_of (outBundle sa') newA \<noteq> None \<and> map_of (outBundle sb') newB \<noteq> None
               \<and> (newA \<noteq> A \<longrightarrow> map_of (fileMap sa') A = Some newA \<and> map_of (outBundle sa') A = None)
               \<and> (newB \<noteq> B \<longrightarrow> map_of (fileMap sb') B = Some newB \<and> map_of (outBundle sb') B = None))
     \<and> (\<exists>st. processRegularFiles cid (regularFiles (topoSort b))
                 \<lparr>outBundle = b, fileMap = []\<rparr> = Inr st)"
proof -
  let ?d = "cid (contentOf (rewriteItem (fileMap sa) ia))"
  from processRegular_effect[OF assms(1), of cid] assms(3) obtain sa' where
    a: "processRegular cid A sa = Inr sa'"
    "map_of (outBundle sa') (join (dirname A) (?d @ extname A)) \<noteq> None"
    "join (dirname A) (?d @ extname A) \<noteq> A \<longrightarrow>
           map_of (fileMap sa') A = Some (join (dirname A) (?d @ extname A))
           \<and> map_of (outBundle sa') A = None"
    by (auto simp: renames_def newFileNameOf_def Let_def update_conv')
  from processRegular_effect[OF assms(2), of cid] assms(4) assms(5)[symmetric] obtain sb' where
    b: "processRegular cid B sb = Inr sb'"
    "map_of (outBundle sb') (join (dirname B) (?d @ extname B)) \<noteq> None"
    "join (dirname B) (?d @ extname B) \<noteq> B \<longrightarrow>
           map_of (fileMap sb') B = Some (join (dirname B) (?d @ extname B))
           \<and> map_of (outBundle sb') B = None"
    by (auto simp: renames_def newFileNameOf_def Let_def update_conv')
  have "set (regularFiles (topoSort b)) \<subseteq> dom (map_of (outBundle \<lparr>outBundle = b, fileMap = []\<rparr>))"
    unfolding regularFiles_set using dom_map_of_keys[of _ b] by auto
  with regular_loop_total[OF regularFiles_distinct, of b "\<lparr>outBundle = b, fileMap = []\<rparr>" cid]
  have total: "\<exists>st. processRegularFiles cid (regularFiles (topoSort b))
                 \<lparr>outBundle = b, fileMap = []\<rparr> = Inr st"
    by simp
  from a b have "\<exists>sa' sb'. processRegular cid A sa = Inr sa' \<and> processRegular cid B sb = Inr sb'
      \<and> map_of (outBundle sa') (join (dirname A) (?d @ extname A)) \<noteq> None
      \<and> map_of (outBundle sb') (join (dirname B) (?d @ extname B)) \<noteq> None
      \<and> (join (dirname A) (?d @ extname A) \<noteq> A
            \<longrightarrow> map_of (fileMap sa') A = Some (join (dirname A) (?d @ extname A))
              \<and> map_of (outBundle sa') A = None)
      \<and> (join (dirname B) (?d @ extname B) \<noteq> B
            \<longrightarrow> map_of (fileMap sb') B = Some (join (dirname B) (?d @ extname B))
              \<and> map_of (outBundle sb') B = None)"
    by blast
  with total show ?thesis unfolding Let_def by blast
qed

lemma processRegular_keys_distinct:
  assumes "processRegular cid f st = Inr st'" "distinct (map fst (outBundle st))"
  shows "distinct (map fst (outBundle st'))"
  using assms
  by (auto simp: processRegular_def Let_def distinct_update distinct_delete
      split: option.splits if_splits)

lemma regular_loop_keys_distinct:
  "processRegularFiles cid fs st = Inr st' \<Longrightarrow> distinct (map fst (outBundle st))
     \<Longrightarrow> distinct (map fst (outBundle st'))"
proof (induction fs arbitrary: st)
  case Nil
  then show ?case by (simp add: processRegularFiles_def)
next
  case (Cons f fs)
  from Cons.prems(1) obtain st1 where
    step: "processRegular cid f st = Inr st1" and
    rest: "processRegularFiles cid fs st1 = Inr st'"
    by (auto simp: processRegularFiles_def split: sum.splits)
  from processRegular_keys_distinct[OF step Cons.prems(2)] Cons.IH[OF rest] show ?case by simp
qed

lemma updateSourceMapRef_keys_distinct:
  "distinct (map fst b) \<Longrightarrow> distinct (map fst (updateSourceMapRef fm e b))"
  by (auto simp: updateSourceMapRef_def Let_def distinct_update
      split: prod.splits option.splits item.splits)

lemma updateSourceMaps_keys_distinct:
  "distinct (map fst b) \<Longrightarrow> distinct (map fst (updateSourceMaps fm b))"
proof -
  have "distinct (map fst b) \<Longrightarrow> distinct (map fst (fold (updateSourceMapRef fm) es b))" for es
    by (induction es arbitrary: b) (simp_all add: updateSourceMapRef_keys_distinct)
  then show "distinct (map fst b) \<Longrightarrow> distinct (map fst (updateSourceMaps fm b))"
    by (simp add: updateSourceMaps_def)
qed

lemma processManifest_keys_distinct:
  "processManifest fm f b = Inr b' \<Longrightarrow> distinct (map fst b) \<Longrightarrow> distinct (map fst b')"
  by (auto simp: processManifest_def distinct_update
      split: option.splits item.splits content.splits sum.splits error.splits)

lemma processManifestFiles_keys_distinct:
  "processManifestFiles fm files b = Inr b' \<Longrightarrow> distinct (map fst b)
     \<Longrightarrow> distinct (map fst b')"
proof (induction files arbitrary: b)
  case Nil
  then show ?case by (simp add: processManifestFiles_def)
next
  case (Cons f files)
  from Cons.prems(1) obtain b1 where
    step: "processManifest fm f b = Inr b1" and
    rest: "processManifestFiles fm files b1 = Inr b'"
    by (auto simp: processManifestFiles_def split: sum.splits)
  from processManifest_keys_distinct[OF step Cons.prems(2)] Cons.IH[OF rest] show ?case by simp
qed

lemma generateBundle_keys_distinct:
  assumes "generateBundle cid b = Inr st'" "distinct (map fst b)"
  shows "distinct (map fst (outBundle st'))"
proof -
  from assms(1) obtain st where
    reg: "processRegularFiles cid (regularFiles (topoSort b)) \<lparr>outBundle = b, fileMap = []\<rparr> = Inr st" and
    man: "processManifestFiles (fileMap st) (manifestFiles (topoSort b))
        (updateSourceMaps (fileMap st) (outBundle st)) = Inr (outBundle st')"
    by (rule generateBundle_phases)
  from regular_loop_keys_distinct[OF reg] assms(2)
  have "distinct (map fst (outBundle st))" by simp
  then have "distinct (map fst (updateSourceMaps (fileMap st) (outBundle st)))"
    by (rule updateSourceMaps_keys_distinct)
  with processManifestFiles_keys_distinct[OF man] show ?thesis by simp
qed

lemma selfRef_run: "generateBundle sampleCID selfRef = Inr selfRefResult"
  by code_simp

text \<open>
  C9, as stated, fails when the shared name is itself a name of the input bundle that is
  processed after the two artifacts: both are renamed to it, the later one replacing the
  earlier, and then the round for the shared name rewrites and digests what is stored
  there and renames it again.  After \<open>generateBundle\<close> the rename map sends both old names
  to the shared name and the bundle has no artifact under it.
\<close>

theorem shared_name_processed_again:
  "generateBundle sampleCID selfRef = Inr selfRefResult
   \<and> map_of selfRef ''a.js'' = Some (Chunk ''a.js'' ''b.js'' [] [] None)
   \<and> map_of selfRef ''b.js'' = Some (Chunk ''b.js'' ''b.js'' [] [] None)
   \<and> dirname ''b.js'' = dirname ''a.js'' \<and> extname ''b.js'' = extname ''a.js''
   \<and> precedes (regularFiles (topoSort selfRef)) ''a.js'' ''b.js''
   \<and> contentOf (rewriteItem
         (filter (\<lambda>e. precedes (regularFiles (topoSort selfRef)) (fst e) ''b.js'')
            (fileMap selfRefResult))
         (Chunk ''b.js'' ''b.js'' [] [] None))
       = contentOf (rewriteItem
         (filter (\<lambda>e. precedes (regularFiles (topoSort selfRef)) (fst e) ''a.js'')
            (fileMap selfRefResult))
         (Chunk ''a.js'' ''b.js'' [] [] None))
   \<and> map_of (fileMap selfRefResult) ''a.js'' = Some ''bafkreigccogkhd.js''
   \<and> map_of (fileMap selfRefResult) ''b.js'' = Some ''bafkreigccogkhd.js''
   \<and> map_of (outBundle selfRefResult) ''bafkreigccogkhd.js'' = None"
proof -
  have "dirname ''b.js'' = dirname ''a.js''" "extname ''b.js'' = extname ''a.js''"
    by code_simp+
  moreover have "precedes (regularFiles (topoSort selfRef)) ''a.js'' ''b.js''" by code_simp
  moreover have "contentOf (rewriteItem
         (filter (\<lambda>e. precedes (regularFiles (topoSort selfRef)) (fst e) ''b.js'')
            (fileMap selfRefResult))
         (Chunk ''b.js'' ''b.js'' [] [] None))
       = contentOf (rewriteItem
         (filter (\<lambda>e. precedes (regularFiles (topoSort selfRef)) (fst e) ''a.js'')
            (fileMap selfRefResult))
         (Chunk ''a.js'' ''b.js'' [] [] None))"
    by code_simp
  moreover have "map_of selfRef ''a.js'' = Some (Chunk ''a.js'' ''b.js'' [] [] None)"
    "map_of selfRef ''b.js'' = Some (Chunk ''b.js'' ''b.js'' [] [] None)"
    by (simp_all add: selfRef_def)
  moreover have "map_of (fileMap selfRefResult) ''a.js'' = Some ''bafkreigccogkhd.js''"
    "map_of (fileMap selfRefResult) ''b.js'' = Some ''bafkreigccogkhd.js''"
    "map_of (outBundle selfRefResult) ''bafkreigccogkhd.js'' = None"
    by (simp_all add: selfRefResult_def)
  ultimately show ?thesis using selfRef_run by simp
qed

text \<open>
  C9, amended.  Let \<open>A\<close> and \<open>B\<close> be two regular artifacts, not HTML documents, with the same
  directory and extension, \<open>A\<close> processed before \<open>B\<close>, whose contents are equal when each is
  digested (each rewritten with the entries recorded before its turn), and let \<open>N\<close>, the
  name their digest gives, differ from both names.  Provided \<open>N\<close> is not a name of the
  input bundle, no artifact processed after \<open>B\<close> is renamed to \<open>N\<close>, no artifact was renamed
  to \<open>A\<close> or \<open>B\<close> and, when \<open>B\<close> is a chunk, no renamed source map is paired with \<open>N\<close>: after
  \<open>generateBundle\<close> the rename map sends both \<open>A\<close> and \<open>B\<close> to \<open>N\<close>, the bundle has exactly
  one entry for \<open>N\<close>, it is the later artifact \<open>B\<close>, and the keys \<open>A\<close> and \<open>B\<close> are gone.
\<close>

theorem identical_content_overwrites:
  assumes g: "generateBundle cid b = Inr st'" and d: "distinct (map fst b)"
    and ab: "A \<noteq> B"
    and la: "map_of b A = Some ia" "\<not> isManifestName A" "\<not> endsWith A ''.html''"
    and lb: "map_of b B = Some ib" "\<not> isManifestName B" "\<not> endsWith B ''.html''"
    and same: "dirname B = dirname A" "extname B = extname A"
    and ord: "precedes (regularFiles (topoSort b)) A B"
  defines "fmA \<equiv> filter (\<lambda>e. precedes (regularFiles (topoSort b)) (fst e) A) (fileMap st')"
  defines "fmB \<equiv> filter (\<lambda>e. precedes (regularFiles (topoSort b)) (fst e) B) (fileMap st')"
  assumes eq: "contentOf (rewriteItem fmB ib) = contentOf (rewriteItem fmA ia)"
  defines "N \<equiv> newFileNameOf cid A (contentOf (rewriteItem fmA ia))"
  assumes nn: "N \<noteq> A" "N \<noteq> B"
    and intact: "A \<notin> snd ` set (fileMap st')" "B \<notin> snd ` set (fileMap st')"
    and fresh: "N \<notin> fst ` set b"
    and lst: "\<forall>old. (old, N) \<in> set (fileMap st')
                \<longrightarrow> old = B \<or> precedes (regularFiles (topoSort b)) old B"
    and pair: "(\<exists>n src. ib = Asset n src)
                \<or> (\<forall>e \<in> set (fileMap st'). \<not> pairedWith (fileMap st') e N)"
  shows "map_of (fileMap st') A = Some N \<and> map_of (fileMap st') B = Some N
     \<and> map_of (outBundle st') N = Some (setFileName N (rewriteItem fmB ib))
     \<and> length (filter (\<lambda>p. fst p = N) (outBundle st')) = 1
     \<and> map_of (outBundle st') A = None \<and> map_of (outBundle st') B = None"
proof -
  have nB: "newFileNameOf cid B (contentOf (rewriteItem fmB ib)) = N"
    using eq same by (simp add: N_def newFileNameOf_def)
  from regular_artifact_at_turn(2)[OF g la(1,2) intact(1)] la(3) nn(1)
  have mA: "map_of (fileMap st') A = Some N" by (simp add: N_def fmA_def)
  from regular_artifact_at_turn(2)[OF g lb(1,2) intact(2)] lb(3) nn(2) nB
  have mB: "map_of (fileMap st') B = Some N" by (simp add: fmB_def)
  from regular_artifact_at_turn(3)[OF g la(1,2) intact(1)] la(3) nn(1)
  have gA: "map_of (outBundle st') A = None" by (simp add: N_def fmA_def)
  from regular_artifact_at_turn(3)[OF g lb(1,2) intact(2)] lb(3) nn(2) nB
  have gB: "map_of (outBundle st') B = None" by (simp add: fmB_def)
  from regular_artifact_at_turn(4)[OF g lb(1,2) intact(2)] mB lst fresh pair nn(2)
  have at: "map_of (outBundle st') N = Some (setFileName N (rewriteItem fmB ib))"
    by (simp add: fmB_def)
  have "distinct (map fst (outBundle st'))"
    using g d by (rule generateBundle_keys_distinct)
  moreover from at have "N \<in> fst ` set (outBundle st')" by (rule map_of_dom_keys)
  ultimately have one: "length (filter (\<lambda>p. fst p = N) (outBundle st')) = 1"
    by (rule distinct_key_once)
  from mA mB at one gA gB show ?thesis by simp
qed

lemma importCycle_run: "generateBundle sampleCID importCycle = Inr importCycleResult"
  by code_simp

lemma entryBundle_run: "generateBundle sampleCID entryBundle = Inr entryResult"
  by code_simp


theorem bytes_asset_content_unchanged_witness:
  "generateBundle sampleCID entryBundle = Inr entryResult
   \<and> map_of entryBundle ''assets/bg.png'' = Some (Asset ''assets/bg.png'' (Bytes [137, 80]))
   \<and> map_of (fileMap entryResult) ''assets/bg.png'' = Some ''assets/bafkreiijfa.png''
   \<and> ''assets/bg.png'' \<notin> snd ` set (fileMap entryResult)
   \<and> map_of (fileMap entryResult) ''assets/bafkreiijfa.png'' = None
   \<and> map_of (outBundle entryResult) ''assets/bafkreiijfa.png''
        = Some (Asset ''assets/bafkreiijfa.png'' (Bytes [137, 80]))"
proof -
  have l: "map_of entryBundle ''assets/bg.png'' = Some (Asset ''assets/bg.png'' (Bytes [137, 80]))"
    by (simp add: entryBundle_def)
  have m: "map_of (fileMap entryResult) ''assets/bg.png'' = Some ''assets/bafkreiijfa.png''"
    by (simp add: entryResult_def)
  have h2: "''assets/bg.png'' \<notin> snd ` set (fileMap entryResult)"
    by (simp add: entryResult_def)
  have h1: "\<forall>old. (old, ''assets/bafkreiijfa.png'') \<in> set (fileMap entryResult)
      \<longrightarrow> old = ''assets/bg.png''"
    by (simp add: entryResult_def)
  have h3: "map_of (fileMap entryResult) ''assets/bafkreiijfa.png'' = None"
    by (simp add: entryResult_def)
  from bytes_asset_content_unchanged[OF entryBundle_run l] m h1 h2 h3
  have "map_of (outBundle entryResult) ''assets/bafkreiijfa.png''
        = Some (Asset ''assets/bafkreiijfa.png'' (Bytes [137, 80]))"
    by (simp add: Let_def)
  with entryBundle_run l m h2 h3 show ?thesis by simp
qed

lemma sameBundle_run: "generateBundle sampleCID sameBundle = Inr afterB"
  by code_simp

theorem processRegular_digest_name_witness:
  \<open>map_of (outBundle sameState) ''a.js'' = Some (Chunk ''a.js'' ''log("same")'' [] [] None)
   \<and> \<not> endsWith ''a.js'' ''.html''
   \<and> (\<exists>st'. processRegular sampleCID ''a.js'' sameState = Inr st'
         \<and> map_of (outBundle st') ''bafkreigmgpghcicchdgbgngfcccj.js''
             = Some (Chunk ''bafkreigmgpghcicchdgbgngfcccj.js'' ''log("same")'' [] [] None)
         \<and> map_of (outBundle st') ''a.js'' = None
         \<and> map_of (fileMap st') ''a.js'' = Some ''bafkreigmgpghcicchdgbgngfcccj.js'')
   \<and> generateBundle sampleCID importCycle = Inr importCycleResult
   \<and> map_of importCycle ''a.js'' = Some (Chunk ''a.js'' ''import "./b.js"'' [''b.js''] [] None)
   \<and> \<not> isManifestName ''a.js''
   \<and> ''a.js'' \<notin> snd ` set (fileMap importCycleResult)
   \<and> filter (\<lambda>e. precedes (regularFiles (topoSort importCycle)) (fst e) ''a.js'')
         (fileMap importCycleResult)
       = [(''b.js'', ''bafkreigjgnhagphchecacccocpgbcogkhdcc.js'')]
   \<and> contentOf (rewriteItem [(''b.js'', ''bafkreigjgnhagphchecacccocpgbcogkhdcc.js'')]
         (Chunk ''a.js'' ''import "./b.js"'' [''b.js''] [] None))
       = Str ''import "./bafkreigjgnhagphchecacccocpgbcogkhdcc.js"''
   \<and> map_of (fileMap importCycleResult) ''a.js''
       = Some (join (dirname ''a.js'')
           (sampleCID (Str ''import "./bafkreigjgnhagphchecacccocpgbcogkhdcc.js"'') @ extname ''a.js''))\<close>
proof -
  let ?Nb = "''bafkreigjgnhagphchecacccocpgbcogkhdcc.js''"
  let ?item = \<open>Chunk ''a.js'' ''import "./b.js"'' [''b.js''] [] None\<close>
  note T = processRegular_digest_name[where st = sameState and fname = "''a.js''"
      and stored = \<open>Chunk ''a.js'' ''log("same")'' [] [] None\<close>
      and generateCID = sampleCID and b = importCycle and final = importCycleResult
      and f = "''a.js''" and it = "?item"]
  have l: \<open>map_of (outBundle sameState) ''a.js'' = Some (Chunk ''a.js'' ''log("same")'' [] [] None)\<close>
    by (simp add: sameState_def sameBundle_def)
  have e: "\<not> endsWith ''a.js'' ''.html''" by (simp add: endsWith_def)
  have n: \<open>join (dirname ''a.js'')
      (sampleCID (contentOf (rewriteItem (fileMap sameState) (Chunk ''a.js'' ''log("same")'' [] [] None)))
         @ extname ''a.js'') = ''bafkreigmgpghcicchdgbgngfcccj.js''\<close>
    by code_simp
  have r: \<open>rewriteItem (fileMap sameState) (Chunk ''a.js'' ''log("same")'' [] [] None)
      = Chunk ''a.js'' ''log("same")'' [] [] None\<close>
    by code_simp
  from T[THEN conjunct1, rule_format, OF l e]
  have step: \<open>\<exists>st'. processRegular sampleCID ''a.js'' sameState = Inr st'
         \<and> map_of (outBundle st') ''bafkreigmgpghcicchdgbgngfcccj.js''
             = Some (Chunk ''bafkreigmgpghcicchdgbgngfcccj.js'' ''log("same")'' [] [] None)
         \<and> map_of (outBundle st') ''a.js'' = None
         \<and> map_of (fileMap st') ''a.js'' = Some ''bafkreigmgpghcicchdgbgngfcccj.js''\<close>
    unfolding Let_def n using r by simp
  have la: "map_of importCycle ''a.js'' = Some ?item"
    by (simp add: importCycle_def)
  have nm: "\<not> isManifestName ''a.js''" by code_simp
  have t: "''a.js'' \<notin> snd ` set (fileMap importCycleResult)"
    by (simp add: importCycleResult_def)
  have flt: "filter (\<lambda>e. precedes (regularFiles (topoSort importCycle)) (fst e) ''a.js'')
         (fileMap importCycleResult) = [(''b.js'', ?Nb)]"
    by code_simp
  have c: \<open>contentOf (rewriteItem [(''b.js'', ?Nb)] ?item)
       = Str ''import "./bafkreigjgnhagphchecacccocpgbcogkhdcc.js"''\<close>
    by code_simp
  have d: \<open>join (dirname ''a.js'')
         (sampleCID (Str ''import "./bafkreigjgnhagphchecacccocpgbcogkhdcc.js"'') @ extname ''a.js'')
       \<noteq> ''a.js''\<close>
    by code_simp
  from T[THEN conjunct2, rule_format, OF importCycle_run la nm e t]
  have whole: \<open>map_of (fileMap importCycleResult) ''a.js''
       = Some (join (dirname ''a.js'')
           (sampleCID (Str ''import "./bafkreigjgnhagphchecacccocpgbcogkhdcc.js"'') @ extname ''a.js''))\<close>
    unfolding Let_def flt c using d by simp
  from l e step importCycle_run la nm t flt c whole show ?thesis by blast
qed

theorem identical_content_identical_digest_name_witness:
  \<open>map_of (outBundle sameState) ''a.js'' = Some (Chunk ''a.js'' ''log("same")'' [] [] None)
   \<and> map_of (outBundle afterA) ''b.js'' = Some (Chunk ''b.js'' ''log("same")'' [] [] None)
   \<and> map_of (outBundle afterA) ''bafkreigmgpghcicchdgbgngfcccj.js'' \<noteq> None
   \<and> (\<exists>sa' sb'. processRegular sampleCID ''a.js'' sameState = Inr sa'
         \<and> processRegular sampleCID ''b.js'' afterA = Inr sb'
         \<and> map_of (fileMap sa') ''a.js'' = Some ''bafkreigmgpghcicchdgbgngfcccj.js''
         \<and> map_of (fileMap sb') ''b.js'' = Some ''bafkreigmgpghcicchdgbgngfcccj.js''
         \<and> map_of (outBundle sb') ''bafkreigmgpghcicchdgbgngfcccj.js'' \<noteq> None
         \<and> map_of (outBundle sb') ''b.js'' = None)
   \<and> (\<exists>st. processRegularFiles sampleCID (regularFiles (topoSort sameBundle))
               \<lparr>outBundle = sameBundle, fileMap = []\<rparr> = Inr st)
   \<and> generateBundle sampleCID sameBundle = Inr afterB\<close>
proof -
  have la: \<open>map_of (outBundle sameState) ''a.js'' = Some (Chunk ''a.js'' ''log("same")'' [] [] None)\<close>
    by (simp add: sameState_def sameBundle_def)
  have lb: \<open>map_of (outBundle afterA) ''b.js'' = Some (Chunk ''b.js'' ''log("same")'' [] [] None)\<close>
    by (simp add: afterA_def)
  have col: "map_of (outBundle afterA) ''bafkreigmgpghcicchdgbgngfcccj.js'' \<noteq> None"
    by (simp add: afterA_def)
  have ea: "\<not> endsWith ''a.js'' ''.html''" and eb: "\<not> endsWith ''b.js'' ''.html''"
    by (simp_all add: endsWith_def)
  have c: \<open>contentOf (rewriteItem (fileMap sameState) (Chunk ''a.js'' ''log("same")'' [] [] None))
      = contentOf (rewriteItem (fileMap afterA) (Chunk ''b.js'' ''log("same")'' [] [] None))\<close>
    by code_simp
  have na: \<open>join (dirname ''a.js'')
      (sampleCID (contentOf (rewriteItem (fileMap sameState) (Chunk ''a.js'' ''log("same")'' [] [] None)))
         @ extname ''a.js'') = ''bafkreigmgpghcicchdgbgngfcccj.js''\<close>
    by code_simp
  have nb: \<open>join (dirname ''b.js'')
      (sampleCID (contentOf (rewriteItem (fileMap sameState) (Chunk ''a.js'' ''log("same")'' [] [] None)))
         @ extname ''b.js'') = ''bafkreigmgpghcicchdgbgngfcccj.js''\<close>
    by code_simp
  note T = identical_content_identical_digest_name[OF la lb ea eb c, of sampleCID sameBundle]
  from T
  have \<open>\<exists>sa' sb'. processRegular sampleCID ''a.js'' sameState = Inr sa'
         \<and> processRegular sampleCID ''b.js'' afterA = Inr sb'
         \<and> map_of (fileMap sa') ''a.js'' = Some ''bafkreigmgpghcicchdgbgngfcccj.js''
         \<and> map_of (fileMap sb') ''b.js'' = Some ''bafkreigmgpghcicchdgbgngfcccj.js''
         \<and> map_of (outBundle sb') ''bafkreigmgpghcicchdgbgngfcccj.js'' \<noteq> None
         \<and> map_of (outBundle sb') ''b.js'' = None\<close>
    unfolding Let_def na nb by auto
  moreover from T
  have "\<exists>st. processRegularFiles sampleCID (regularFiles (topoSort sameBundle))
               \<lparr>outBundle = sameBundle, fileMap = []\<rparr> = Inr st"
    by blast
  ultimately show ?thesis using la lb col sameBundle_run by blast
qed

theorem identical_content_overwrites_witness:
  \<open>generateBundle sampleCID sameBundle = Inr afterB
   \<and> distinct (map fst sameBundle)
   \<and> map_of sameBundle ''a.js'' = Some (Chunk ''a.js'' ''log("same")'' [] [] None)
   \<and> map_of sameBundle ''b.js'' = Some (Chunk ''b.js'' ''log("same")'' [] [] None)
   \<and> dirname ''b.js'' = dirname ''a.js'' \<and> extname ''b.js'' = extname ''a.js''
   \<and> precedes (regularFiles (topoSort sameBundle)) ''a.js'' ''b.js''
   \<and> filter (\<lambda>e. precedes (regularFiles (topoSort sameBundle)) (fst e) ''a.js'') (fileMap afterB) = []
   \<and> filter (\<lambda>e. precedes (regularFiles (topoSort sameBundle)) (fst e) ''b.js'') (fileMap afterB)
       = [(''a.js'', ''bafkreigmgpghcicchdgbgngfcccj.js'')]
   \<and> contentOf (rewriteItem [(''a.js'', ''bafkreigmgpghcicchdgbgngfcccj.js'')]
         (Chunk ''b.js'' ''log("same")'' [] [] None))
       = contentOf (rewriteItem [] (Chunk ''a.js'' ''log("same")'' [] [] None))
   \<and> newFileNameOf sampleCID ''a.js''
         (contentOf (rewriteItem [] (Chunk ''a.js'' ''log("same")'' [] [] None)))
       = ''bafkreigmgpghcicchdgbgngfcccj.js''
   \<and> ''bafkreigmgpghcicchdgbgngfcccj.js'' \<notin> fst ` set sameBundle
   \<and> map_of (fileMap afterB) ''a.js'' = Some ''bafkreigmgpghcicchdgbgngfcccj.js''
   \<and> map_of (fileMap afterB) ''b.js'' = Some ''bafkreigmgpghcicchdgbgngfcccj.js''
   \<and> map_of (outBundle afterB) ''bafkreigmgpghcicchdgbgngfcccj.js''
       = Some (setFileName ''bafkreigmgpghcicchdgbgngfcccj.js''
            (rewriteItem [(''a.js'', ''bafkreigmgpghcicchdgbgngfcccj.js'')]
               (Chunk ''b.js'' ''log("same")'' [] [] None)))
   \<and> setFileName ''bafkreigmgpghcicchdgbgngfcccj.js''
         (rewriteItem [(''a.js'', ''bafkreigmgpghcicchdgbgngfcccj.js'')]
            (Chunk ''b.js'' ''log("same")'' [] [] None))
       = Chunk ''bafkreigmgpghcicchdgbgngfcccj.js'' ''log("same")'' [] [] None
   \<and> length (filter (\<lambda>p. fst p = ''bafkreigmgpghcicchdgbgngfcccj.js'') (outBundle afterB)) = 1
   \<and> map_of (outBundle afterB) ''a.js'' = None
   \<and> map_of (outBundle afterB) ''b.js'' = None\<close>
proof -
  let ?N = "''bafkreigmgpghcicchdgbgngfcccj.js''"
  let ?ia = \<open>Chunk ''a.js'' ''log("same")'' [] [] None\<close>
  let ?ib = \<open>Chunk ''b.js'' ''log("same")'' [] [] None\<close>
  have d: "distinct (map fst sameBundle)" by (simp add: sameBundle_def)
  have ab: "''a.js'' \<noteq> ''b.js''" by simp
  have la: "map_of sameBundle ''a.js'' = Some ?ia" by (simp add: sameBundle_def)
  have lb: "map_of sameBundle ''b.js'' = Some ?ib" by (simp add: sameBundle_def)
  have ma: "\<not> isManifestName ''a.js''" and mb: "\<not> isManifestName ''b.js''" by code_simp+
  have ea: "\<not> endsWith ''a.js'' ''.html''" and eb: "\<not> endsWith ''b.js'' ''.html''"
    by (simp_all add: endsWith_def)
  have dn: "dirname ''b.js'' = dirname ''a.js''" and en: "extname ''b.js'' = extname ''a.js''"
    by code_simp+
  have ord: "precedes (regularFiles (topoSort sameBundle)) ''a.js'' ''b.js''" by code_simp
  have flA: "filter (\<lambda>e. precedes (regularFiles (topoSort sameBundle)) (fst e) ''a.js'')
      (fileMap afterB) = []"
    by code_simp
  have flB: "filter (\<lambda>e. precedes (regularFiles (topoSort sameBundle)) (fst e) ''b.js'')
      (fileMap afterB) = [(''a.js'', ?N)]"
    by code_simp
  have eq: "contentOf (rewriteItem [(''a.js'', ?N)] ?ib) = contentOf (rewriteItem [] ?ia)"
    by code_simp
  have nw: "newFileNameOf sampleCID ''a.js'' (contentOf (rewriteItem [] ?ia)) = ?N"
    by code_simp
  have na: "?N \<noteq> ''a.js''" and nb: "?N \<noteq> ''b.js''" by simp_all
  have ia: "''a.js'' \<notin> snd ` set (fileMap afterB)" and ib: "''b.js'' \<notin> snd ` set (fileMap afterB)"
    by (simp_all add: afterB_def)
  have fresh: "?N \<notin> fst ` set sameBundle" by (simp add: sameBundle_def)
  have lst: "\<forall>old. (old, ?N) \<in> set (fileMap afterB)
      \<longrightarrow> old = ''b.js'' \<or> precedes (regularFiles (topoSort sameBundle)) old ''b.js''"
    using ord by (auto simp: afterB_def)
  have pair: "(\<exists>n src. ?ib = Asset n src)
      \<or> (\<forall>e \<in> set (fileMap afterB). \<not> pairedWith (fileMap afterB) e ?N)"
    by (simp add: afterB_def pairedWith_def endsWith_def)
  have sf: \<open>setFileName ?N (rewriteItem [(''a.js'', ?N)] ?ib)
      = Chunk ?N ''log("same")'' [] [] None\<close>
    by code_simp
  note T = identical_content_overwrites[where cid = sampleCID and b = sameBundle
      and st' = afterB and A = "''a.js''" and B = "''b.js''" and ia = "?ia" and ib = "?ib",
      unfolded flA flB nw]
  from T[OF sameBundle_run d ab la ma ea lb mb eb dn en ord eq na nb ia ib fresh lst pair]
    sameBundle_run d la lb dn en ord flA flB eq nw fresh sf
  show ?thesis by simp
qed

section \<open>The bound on the nested calls of the JSON parser\<close>

text \<open>A successful parse consumes text, so a bound above twice the length of the text is
  never reached: with any two such bounds the parser gives the same result.\<close>

lemma skipWs_Cons: "skipWs s = c # cs \<Longrightarrow> length cs < length s"
proof -
  assume a: "skipWs s = c # cs"
  have "length (skipWs s) \<le> length s" by (simp add: skipWs_def length_dropWhile_le)
  with a show ?thesis by simp
qed

lemma parseString_consumes: "parseString acc s = Inr (k, r) \<Longrightarrow> length r < length s"
proof (induction s arbitrary: acc rule: length_induct)
  case (1 s)
  show ?case
  proof (cases s)
    case Nil
    with "1.prems" show ?thesis by simp
  next
    case (Cons c s1)
    show ?thesis
    proof (cases s1)
      case Nil
      with Cons "1.prems" show ?thesis by (simp split: if_splits)
    next
      case (Cons e r0)
      note s = \<open>s = c # s1\<close> Cons
      show ?thesis
      proof (cases "c = CHR 0x22")
        case True
        with s "1.prems" show ?thesis by simp
      next
        case False
        note nq = this
        show ?thesis
        proof (cases "c = CHR 0x5C")
          case True
          with s nq "1.prems" have "\<exists>x. parseString (x # acc) r0 = Inr (k, r)"
            by (simp split: if_splits) blast+
          then obtain x where "parseString (x # acc) r0 = Inr (k, r)" by blast
          moreover have "length r0 < length s" using s by simp
          ultimately have "length r < length r0" using "1.IH" by blast
          with s show ?thesis by simp
        next
          case False
          with s nq "1.prems" have "parseString (c # acc) (e # r0) = Inr (k, r)"
            by (simp split: if_splits)
          moreover have "length (e # r0) < length s" using s by simp
          ultimately have "length r < length (e # r0)" using "1.IH" by blast
          with s show ?thesis by simp
        qed
      qed
    qed
  qed
qed

lemma parse_consumes:
  "parseValue n s = Inr (v, r) \<Longrightarrow> length r < length s"
  "parseElements n acc s = Inr (v, r) \<Longrightarrow> length r < length s"
  "parseMembers n macc s = Inr (v, r) \<Longrightarrow> length r < length s"
proof (induction n s and n acc s and n macc s arbitrary: v r and v r and v r
    rule: parseValue_parseElements_parseMembers.induct)
  case (1 s)
  then show ?case by simp
next
  case (2 n s)
  from "2.prems" obtain c cs where sk: "skipWs s = c # cs"
    by (cases "skipWs s") auto
  note len = skipWs_Cons[OF sk]
  consider (obj) "c = CHR ''{''" | (arr) "c \<noteq> CHR ''{''" "c = CHR ''[''"
    | (str) "c \<noteq> CHR ''{''" "c \<noteq> CHR ''[''" "c = CHR 0x22"
    | (lit) "c \<noteq> CHR ''{''" "c \<noteq> CHR ''[''" "c \<noteq> CHR 0x22"
    by blast
  then show ?case
  proof cases
    case obj
    from "2.prems" sk obj obtain d r0 where sk2: "skipWs cs = d # r0"
      by (cases "skipWs cs") auto
    show ?thesis
    proof (cases "d = CHR ''}''")
      case True
      with "2.prems" sk obj sk2 have "r = r0" by simp
      with skipWs_Cons[OF sk2] len show ?thesis by simp
    next
      case False
      with "2.prems" sk obj sk2 have "parseMembers n [] cs = Inr (v, r)" by simp
      from "2.IH"(1)[OF sk obj sk2 False this] len show ?thesis by simp
    qed
  next
    case arr
    from "2.prems" sk arr obtain d r0 where sk2: "skipWs cs = d # r0"
      by (cases "skipWs cs") auto
    show ?thesis
    proof (cases "d = CHR '']''")
      case True
      with "2.prems" sk arr sk2 have "r = r0" by simp
      with skipWs_Cons[OF sk2] len show ?thesis by simp
    next
      case False
      with "2.prems" sk arr sk2 have "parseElements n [] cs = Inr (v, r)" by simp
      from "2.IH"(2)[OF sk arr sk2 False this] len show ?thesis by simp
    qed
  next
    case str
    with "2.prems" sk obtain k where "parseString [] cs = Inr (k, r)"
      by (auto split: sum.splits)
    from parseString_consumes[OF this] len show ?thesis by simp
  next
    case lit
    have "parseValue (Suc n) s =
        (if startsWith (c # cs) ''true'' then Inr (JBool True, drop 4 (c # cs))
         else if startsWith (c # cs) ''false'' then Inr (JBool False, drop 5 (c # cs))
         else if startsWith (c # cs) ''null'' then Inr (JNull, drop 4 (c # cs))
         else if c = CHR ''-'' \<or> isDigit c then Inl OutsideModel
         else Inl SyntaxError)"
      using sk lit by simp
    with "2.prems" have "r = drop 4 (c # cs) \<or> r = drop 5 (c # cs)"
      by (simp split: if_splits del: startsWith.simps)
    with len show ?thesis by auto
  qed
next
  case (3 acc s)
  then show ?case by simp
next
  case (4 n acc s)
  from "4.prems" obtain v1 r1 where pv: "parseValue n s = Inr (v1, r1)"
    by (cases "parseValue n s") auto
  from "4.IH"(1)[OF pv] have l1: "length r1 < length s" .
  from "4.prems" pv obtain d r2 where sk: "skipWs r1 = d # r2"
    by (cases "skipWs r1") auto
  note l2 = skipWs_Cons[OF sk]
  show ?case
  proof (cases "d = CHR '',''")
    case True
    with "4.prems" pv sk have "parseElements n (v1 # acc) r2 = Inr (v, r)" by simp
    from "4.IH"(2)[OF pv refl sk True this] l1 l2 show ?thesis by simp
  next
    case False
    with "4.prems" pv sk have "r = r2" by (auto split: if_splits)
    with l1 l2 show ?thesis by simp
  qed
next
  case (5 macc s)
  then show ?case by simp
next
  case (6 n macc s)
  from "6.prems" obtain q r0 where sk: "skipWs s = q # r0"
    by (cases "skipWs s") auto
  from "6.prems" sk have q: "\<not> q \<noteq> CHR 0x22" by (auto split: if_splits)
  from "6.prems" sk q obtain k r1 where ps: "parseString [] r0 = Inr (k, r1)"
    by (cases "parseString [] r0") auto
  from "6.prems" sk q ps obtain colon r2 where sk2: "skipWs r1 = colon # r2"
    by (cases "skipWs r1") auto
  from "6.prems" sk q ps sk2 have col: "\<not> colon \<noteq> CHR '':''" by (auto split: if_splits)
  from "6.prems" sk q ps sk2 col obtain v1 r3 where pv: "parseValue n r2 = Inr (v1, r3)"
    by (cases "parseValue n r2") auto
  from "6.prems" sk q ps sk2 col pv obtain d r4 where sk3: "skipWs r3 = d # r4"
    by (cases "skipWs r3") auto
  have l: "length r4 < length s"
    using skipWs_Cons[OF sk] parseString_consumes[OF ps] skipWs_Cons[OF sk2]
      "6.IH"(1)[OF sk q ps refl sk2 col pv] skipWs_Cons[OF sk3]
    by simp
  show ?case
  proof (cases "d = CHR '',''")
    case True
    with "6.prems" sk q ps sk2 col pv sk3
    have "parseMembers n (AList.update k v1 macc) r4 = Inr (v, r)" by simp
    from "6.IH"(2)[OF sk q ps refl sk2 col pv refl sk3 True this] l show ?thesis by simp
  next
    case False
    with "6.prems" sk q ps sk2 col pv sk3 have "r = r4" by (auto split: if_splits)
    with l show ?thesis by simp
  qed
qed

lemma parse_fuel:
  "2 * length s < n \<Longrightarrow> 2 * length s < m \<Longrightarrow> parseValue n s = parseValue m s"
  "2 * length s + 1 < n \<Longrightarrow> 2 * length s + 1 < m
     \<Longrightarrow> parseElements n acc s = parseElements m acc s"
  "2 * length s + 1 < n \<Longrightarrow> 2 * length s + 1 < m
     \<Longrightarrow> parseMembers n macc s = parseMembers m macc s"
proof (induction n s and n acc s and n macc s arbitrary: m and m and m
    rule: parseValue_parseElements_parseMembers.induct)
  case (1 s)
  then show ?case by simp
next
  case (2 n s)
  from "2.prems"(2) obtain m' where m: "m = Suc m'" by (cases m) auto
  show ?case
  proof (cases "skipWs s")
    case Nil
    then show ?thesis by (simp add: m)
  next
    case (Cons c cs)
    note sk = this
    have len: "2 * length cs + 1 < n" "2 * length cs + 1 < m'"
      using skipWs_Cons[OF sk] "2.prems" m by auto
    consider (obj) "c = CHR ''{''" | (arr) "c \<noteq> CHR ''{''" "c = CHR ''[''"
      | (other) "c \<noteq> CHR ''{''" "c \<noteq> CHR ''[''"
      by blast
    then show ?thesis
    proof cases
      case obj
      show ?thesis
      proof (cases "skipWs cs")
        case Nil
        with sk obj show ?thesis by (simp add: m)
      next
        case (Cons d r0)
        show ?thesis
        proof (cases "d = CHR ''}''")
          case True
          with sk obj Cons show ?thesis by (simp add: m)
        next
          case False
          from "2.IH"(1)[OF sk obj Cons False len]
          have "parseMembers n [] cs = parseMembers m' [] cs" .
          with sk obj Cons False show ?thesis by (simp add: m)
        qed
      qed
    next
      case arr
      show ?thesis
      proof (cases "skipWs cs")
        case Nil
        with sk arr show ?thesis by (simp add: m)
      next
        case (Cons d r0)
        show ?thesis
        proof (cases "d = CHR '']''")
          case True
          with sk arr Cons show ?thesis by (simp add: m)
        next
          case False
          from "2.IH"(2)[OF sk arr Cons False len]
          have "parseElements n [] cs = parseElements m' [] cs" .
          with sk arr Cons False show ?thesis by (simp add: m)
        qed
      qed
    next
      case other
      with sk show ?thesis by (simp add: m)
    qed
  qed
next
  case (3 acc s)
  then show ?case by simp
next
  case (4 n acc s)
  from "4.prems"(2) obtain m' where m: "m = Suc m'" by (cases m) auto
  have e1: "parseValue n s = parseValue m' s"
    using "4.IH"(1)[of m'] "4.prems" m by simp
  show ?case
  proof (cases "parseValue n s")
    case (Inl e)
    moreover from Inl e1 have "parseValue m' s = Inl e" by simp
    ultimately show ?thesis by (simp add: m)
  next
    case (Inr p)
    obtain v1 r1 where p: "p = (v1, r1)" by (cases p)
    with Inr have pv: "parseValue n s = Inr (v1, r1)" by simp
    with e1 have pv': "parseValue m' s = Inr (v1, r1)" by simp
    note l1 = parse_consumes(1)[OF pv]
    show ?thesis
    proof (cases "skipWs r1")
      case Nil
      with pv pv' show ?thesis by (simp add: m)
    next
      case (Cons d r2)
      note l2 = skipWs_Cons[OF Cons]
      show ?thesis
      proof (cases "d = CHR '',''")
        case True
        have "parseElements n (v1 # acc) r2 = parseElements m' (v1 # acc) r2"
          using "4.IH"(2)[OF pv refl Cons True, of m'] l1 l2 "4.prems" m by simp
        with pv pv' Cons True show ?thesis by (simp add: m)
      next
        case False
        with pv pv' Cons show ?thesis by (simp add: m)
      qed
    qed
  qed
next
  case (5 macc s)
  then show ?case by simp
next
  case (6 n macc s)
  from "6.prems"(2) obtain m' where m: "m = Suc m'" by (cases m) auto
  show ?case
  proof (cases "skipWs s")
    case Nil
    then show ?thesis by (simp add: m)
  next
    case (Cons q r0)
    note sk = this
    show ?thesis
    proof (cases "q \<noteq> CHR 0x22")
      case True
      with sk show ?thesis by (simp add: m)
    next
      case False
      note q = this
      show ?thesis
      proof (cases "parseString [] r0")
        case (Inl e)
        with sk q show ?thesis by (simp add: m)
      next
        case (Inr p)
        obtain k r1 where p: "p = (k, r1)" by (cases p)
        with Inr have ps: "parseString [] r0 = Inr (k, r1)" by simp
        show ?thesis
        proof (cases "skipWs r1")
          case Nil
          with sk q ps show ?thesis by (simp add: m)
        next
          case (Cons colon r2)
          note sk2 = this
          show ?thesis
          proof (cases "colon \<noteq> CHR '':''")
            case True
            with sk q ps sk2 show ?thesis by (simp add: m)
          next
            case False
            note col = this
            have l2: "length r2 + 2 < length s"
              using skipWs_Cons[OF sk] parseString_consumes[OF ps] skipWs_Cons[OF sk2] by simp
            have e1: "parseValue n r2 = parseValue m' r2"
              using "6.IH"(1)[OF sk q ps refl sk2 col, of m'] l2 "6.prems" m by simp
            show ?thesis
            proof (cases "parseValue n r2")
              case (Inl e)
              moreover from Inl e1 have "parseValue m' r2 = Inl e" by simp
              ultimately show ?thesis using sk q ps sk2 col by (simp add: m)
            next
              case (Inr p2)
              obtain v1 r3 where p2: "p2 = (v1, r3)" by (cases p2)
              with Inr have pv: "parseValue n r2 = Inr (v1, r3)" by simp
              with e1 have pv': "parseValue m' r2 = Inr (v1, r3)" by simp
              note l3 = parse_consumes(1)[OF pv]
              show ?thesis
              proof (cases "skipWs r3")
                case Nil
                with sk q ps sk2 col pv pv' show ?thesis by (simp add: m)
              next
                case (Cons d r4)
                note sk3 = this
                note l4 = skipWs_Cons[OF sk3]
                show ?thesis
                proof (cases "d = CHR '',''")
                  case True
                  have "parseMembers n (AList.update k v1 macc) r4
                      = parseMembers m' (AList.update k v1 macc) r4"
                    using "6.IH"(2)[OF sk q ps refl sk2 col pv refl sk3 True, of m']
                      l2 l3 l4 "6.prems" m by simp
                  with sk q ps sk2 col pv pv' sk3 True show ?thesis by (simp add: m)
                next
                  case False
                  with sk q ps sk2 col pv pv' sk3 show ?thesis by (simp add: m)
                qed
              qed
            qed
          qed
        qed
      qed
    qed
  qed
qed

lemma jsonParse_fuel:
  "2 * length s < n \<Longrightarrow> parseValue n s = parseValue (Suc (2 * length s)) s"
  by (rule parse_fuel(1)) simp_all

section \<open>Properties of the disk phase\<close>

lemma writeBundleFile_caught:
  assumes "reconcileFile b (join outDir fname) fs = Inl e" "e \<noteq> OutsideModel"
  shows "writeBundleFile outDir b fname fs = Inr fs"
  using assms by (cases e) (simp_all add: writeBundleFile_def)

lemma writeBundleFile_no_exception:
  assumes "writeBundleFile outDir b fname fs = Inl e"
  shows "e = OutsideModel"
proof (cases "reconcileFile b (join outDir fname) fs")
  case (Inr fs')
  with assms show ?thesis by (simp add: writeBundleFile_def split: if_splits)
next
  case (Inl e')
  with assms show ?thesis
    by (cases e') (simp_all add: writeBundleFile_def split: if_splits)
qed

lemma writeBundle_loop_no_exception:
  "foldE (writeBundleFile outDir b) files fs = Inl e \<Longrightarrow> e = OutsideModel"
proof (induction files arbitrary: fs)
  case Nil
  then show ?case by simp
next
  case (Cons f files)
  show ?case
  proof (cases "writeBundleFile outDir b f fs")
    case (Inl e')
    with Cons.prems have "e' = e" by simp
    with Inl show ?thesis by (simp add: writeBundleFile_no_exception)
  next
    case (Inr fs')
    with Cons.prems Cons.IH[of fs'] show ?thesis by simp
  qed
qed

text \<open>
  C8.  No exception of the program leaves \<open>writeBundle\<close>: whatever fails while a manifest
  file is read, parsed, corrected or written is caught.  When the \<open>try\<close> block of a file
  fails, the loop goes on with the remaining files, the files on disk as they were.
  (The only \<open>Inl\<close> result is the marker for an input outside the modelled part of JSON
  and of regular expressions.)
\<close>

theorem writeBundle_swallows_file_errors:
  "(\<forall>e. writeBundle dir b fs = Inl e \<longrightarrow> e = OutsideModel)
   \<and> (\<forall>e. reconcileFile b (join outDir fname) fs = Inl e \<longrightarrow> e \<noteq> OutsideModel \<longrightarrow>
         foldE (writeBundleFile outDir b) (fname # rest) fs
           = foldE (writeBundleFile outDir b) rest fs)"
proof (intro conjI allI impI)
  fix e assume "writeBundle dir b fs = Inl e"
  then show "e = OutsideModel"
    by (simp add: writeBundle_def Let_def writeBundle_loop_no_exception)
next
  fix e assume "reconcileFile b (join outDir fname) fs = Inl e" "e \<noteq> OutsideModel"
  then have "writeBundleFile outDir b fname fs = Inr fs" by (rule writeBundleFile_caught)
  then show "foldE (writeBundleFile outDir b) (fname # rest) fs
           = foldE (writeBundleFile outDir b) rest fs"
    by simp
qed

lemma disk_read_fails:
  "reconcileFile diskBundle (join ''dist'' ''a/manifest.json'') disk = Inl IOError"
  by code_simp

lemma disk_parse_fails:
  "reconcileFile diskBundle (join ''dist'' ''b/manifest.json'') disk = Inl SyntaxError"
  by code_simp

lemma disk_write_fails:
  "readFile disk (join ''dist'' ''c/manifest.json'') = Inr staleManifest
   \<and> reconcileFile diskBundle (join ''dist'' ''c/manifest.json'') disk = Inl IOError"
  by code_simp

lemma disk_last_file:
  "foldE (writeBundleFile ''dist'' diskBundle) [''.vite/manifest.json''] disk = Inr diskAfter"
  by code_simp

lemma disk_keys:
  "objectKeys diskBundle =
     [''assets/bafkreiabc.js'', ''a/manifest.json'', ''b/manifest.json'', ''c/manifest.json'',
      ''.vite/manifest.json'']"
  by code_simp

theorem writeBundle_swallows_file_errors_witness:
  "reconcileFile diskBundle (join ''dist'' ''a/manifest.json'') disk = Inl IOError
   \<and> reconcileFile diskBundle (join ''dist'' ''b/manifest.json'') disk = Inl SyntaxError
   \<and> readFile disk (join ''dist'' ''c/manifest.json'') = Inr staleManifest
   \<and> reconcileFile diskBundle (join ''dist'' ''c/manifest.json'') disk = Inl IOError
   \<and> foldE (writeBundleFile ''dist'' diskBundle)
        [''a/manifest.json'', ''b/manifest.json'', ''c/manifest.json'', ''.vite/manifest.json'']
        disk = Inr diskAfter
   \<and> writeBundle None diskBundle disk = Inr diskAfter"
proof -
  note t = writeBundle_swallows_file_errors[of None diskBundle disk "''dist''"]
  have a: "foldE (writeBundleFile ''dist'' diskBundle)
        [''a/manifest.json'', ''b/manifest.json'', ''c/manifest.json'', ''.vite/manifest.json'']
        disk
      = foldE (writeBundleFile ''dist'' diskBundle)
        [''b/manifest.json'', ''c/manifest.json'', ''.vite/manifest.json''] disk"
    using t[of "''a/manifest.json''"] disk_read_fails by simp
  have b: "foldE (writeBundleFile ''dist'' diskBundle)
        [''b/manifest.json'', ''c/manifest.json'', ''.vite/manifest.json''] disk
      = foldE (writeBundleFile ''dist'' diskBundle)
        [''c/manifest.json'', ''.vite/manifest.json''] disk"
    using t[of "''b/manifest.json''"] disk_parse_fails by simp
  have c: "foldE (writeBundleFile ''dist'' diskBundle)
        [''c/manifest.json'', ''.vite/manifest.json''] disk
      = foldE (writeBundleFile ''dist'' diskBundle) [''.vite/manifest.json''] disk"
    using t[of "''c/manifest.json''"] disk_write_fails by simp
  have first: "writeBundleFile ''dist'' diskBundle ''assets/bafkreiabc.js'' disk = Inr disk"
    by (simp add: writeBundleFile_def endsWith_def)
  have w: "writeBundle None diskBundle disk = Inr diskAfter"
    using a b c disk_last_file first by (simp add: writeBundle_def disk_keys)
  from a b c disk_last_file w disk_read_fails disk_parse_fails disk_write_fails
  show ?thesis by simp
qed

section \<open>References to renamed artifacts\<close>

lemma startsWith_prefix: "startsWith s p \<longleftrightarrow> prefix p s"
  by (induction s p rule: startsWith.induct) auto

lemma startsWith_append: "startsWith s p \<Longrightarrow> startsWith (s @ t) p"
  by (auto simp: startsWith_prefix)

lemma startsWith_split: "startsWith s p \<Longrightarrow> s = p @ drop (length p) s"
  by (auto simp: startsWith_prefix prefix_def)

lemma includesStr_suffix: "includesStr u p \<longleftrightarrow> (\<exists>y. suffix y u \<and> startsWith y p)"
proof (induction u)
  case Nil
  show ?case by (cases p) auto
next
  case (Cons c u)
  show ?case
  proof
    assume "includesStr (c # u) p"
    then show "\<exists>y. suffix y (c # u) \<and> startsWith y p"
      using Cons.IH by (auto simp: suffix_Cons)
  next
    assume "\<exists>y. suffix y (c # u) \<and> startsWith y p"
    then show "includesStr (c # u) p"
      using Cons.IH by (auto simp: suffix_Cons)
  qed
qed

lemma joinWith_Cons: "joinWith sep (x # xs) = (if xs = [] then x else x @ sep @ joinWith sep xs)"
  by (cases xs) auto

lemma pieces_nonempty: "pieces pat cur subject \<noteq> []"
  by (induction pat cur subject rule: pieces.induct) auto

lemma joinWith_pieces: "pat \<noteq> [] \<Longrightarrow> joinWith pat (pieces pat cur subject) = rev cur @ subject"
proof (induction pat cur subject rule: pieces.induct)
  case (1 pat cur)
  show ?case by simp
next
  case (2 pat cur c cs)
  show ?case
  proof (cases "startsWith (c # cs) pat")
    case True
    with 2 have "joinWith pat (pieces pat [] (drop (length pat) (c # cs)))
        = drop (length pat) (c # cs)"
      by simp
    moreover from True have "c # cs = pat @ drop (length pat) (c # cs)"
      by (rule startsWith_split)
    ultimately show ?thesis
      using True 2(3) by (simp add: joinWith_Cons pieces_nonempty)
  next
    case False
    with 2 show ?thesis by simp
  qed
qed

lemma getSubstitution_plain:
  "CHR ''$'' \<notin> set repl \<Longrightarrow> getSubstitution m pre post repl = repl"
  by (induction m pre post repl rule: getSubstitution.induct) auto

lemma replaceFrom_pieces:
  "pat \<noteq> [] \<Longrightarrow> CHR ''$'' \<notin> set repl
     \<Longrightarrow> rev cur @ replaceFrom pat repl scanned subject = joinWith repl (pieces pat cur subject)"
proof (induction pat cur subject arbitrary: scanned rule: pieces.induct)
  case (1 pat cur)
  then show ?case by simp
next
  case (2 pat cur c cs)
  show ?case
  proof (cases "startsWith (c # cs) pat")
    case True
    from 2(1)[OF _ 2(3,4), of "scanned @ pat"] True 2(3)
    have "replaceFrom pat repl (scanned @ pat) (drop (length pat) (c # cs))
        = joinWith repl (pieces pat [] (drop (length pat) (c # cs)))"
      by simp
    with True 2(3,4) show ?thesis
      by (simp add: joinWith_Cons pieces_nonempty getSubstitution_plain)
  next
    case False
    from 2(2)[OF _ 2(3,4), of "scanned @ [c]"] False
    have "rev (c # cur) @ replaceFrom pat repl (scanned @ [c]) cs
        = joinWith repl (pieces pat (c # cur) cs)"
      by simp
    with False 2(3) show ?thesis by simp
  qed
qed

lemma pieces_free:
  "pat \<noteq> [] \<Longrightarrow> (\<forall>y. y \<noteq> [] \<longrightarrow> suffix y (rev cur) \<longrightarrow> \<not> startsWith (y @ subject) pat)
     \<Longrightarrow> \<forall>u \<in> set (pieces pat cur subject). \<not> includesStr u pat"
proof (induction pat cur subject rule: pieces.induct)
  case (1 pat cur)
  have "\<not> includesStr (rev cur) pat"
  proof
    assume "includesStr (rev cur) pat"
    then obtain y where y: "suffix y (rev cur)" "startsWith y pat"
      by (auto simp: includesStr_suffix)
    with 1(1) have "y \<noteq> []" by (cases pat) auto
    with 1(2) y show False by auto
  qed
  then show ?case by simp
next
  case (2 pat cur c cs)
  show ?case
  proof (cases "startsWith (c # cs) pat")
    case True
    have "\<not> includesStr (rev cur) pat"
    proof
      assume "includesStr (rev cur) pat"
      then obtain y where y: "suffix y (rev cur)" "startsWith y pat"
        by (auto simp: includesStr_suffix)
      with 2(3) have "y \<noteq> []" by (cases pat) auto
      moreover from y(2) have "startsWith (y @ c # cs) pat" by (rule startsWith_append)
      ultimately show False using 2(4) y(1) by auto
    qed
    moreover from 2(1)[OF _ 2(3)] True 2(3)
    have "\<forall>u \<in> set (pieces pat [] (drop (length pat) (c # cs))). \<not> includesStr u pat"
      by simp
    ultimately show ?thesis using True 2(3) by simp
  next
    case False
    have "\<forall>y. y \<noteq> [] \<longrightarrow> suffix y (rev (c # cur)) \<longrightarrow> \<not> startsWith (y @ cs) pat"
    proof (intro allI impI)
      fix y assume ne: "y \<noteq> []" and s: "suffix y (rev (c # cur))"
      from s have "suffix y (rev cur @ [c])" by simp
      with ne obtain y0 where y0: "y = y0 @ [c]" "suffix y0 (rev cur)"
        by (cases y rule: rev_cases) (auto simp: suffix_snoc)
      show "\<not> startsWith (y @ cs) pat"
      proof (cases "y0 = []")
        case True
        with y0 False show ?thesis by simp
      next
        case n: False
        with 2(4) y0 show ?thesis by auto
      qed
    qed
    with 2(2)[OF _ 2(3)] False show ?thesis by simp
  qed
qed

lemma replaceAll_pieces:
  assumes "pat \<noteq> []" "CHR ''$'' \<notin> set repl"
  shows "\<exists>ps. subject = joinWith pat ps \<and> replaceAll pat repl subject = joinWith repl ps
     \<and> (\<forall>u \<in> set ps. \<not> includesStr u pat)"
proof (intro exI[of _ "pieces pat [] subject"] conjI)
  show "subject = joinWith pat (pieces pat [] subject)"
    using assms(1) by (simp add: joinWith_pieces)
  show "replaceAll pat repl subject = joinWith repl (pieces pat [] subject)"
    using replaceFrom_pieces[OF assms, of "[]" "[]" subject] by (simp add: replaceAll_def)
  show "\<forall>u \<in> set (pieces pat [] subject). \<not> includesStr u pat"
    using assms(1) by (intro pieces_free) auto
qed

text \<open>
  C3, as stated, fails for two chunks that import each other.  The traversal emits \<open>b.js\<close>
  before \<open>a.js\<close>; \<open>b.js\<close> is rewritten while the rename map is still empty, and \<open>a.js\<close> is
  renamed afterwards.  After \<open>generateBundle\<close> the chunk that was \<open>b.js\<close> is in the bundle
  and its code still contains the base name \<open>a.js\<close>, a name that was renamed.
\<close>

theorem cyclic_import_keeps_old_name:
  \<open>generateBundle sampleCID importCycle = Inr importCycleResult
   \<and> map_of (fileMap importCycleResult) ''a.js''
       = Some ''bafkreigjgnhagphchecacccocpgcgbggglhcgfgjghgkghgogigbghhagigdgigfgdgbgdgdgdgpgdhaghgcgdgpghglgigegdgdcogkhdcc.js''
   \<and> map_of (outBundle importCycleResult) ''bafkreigjgnhagphchecacccocpgbcogkhdcc.js''
       = Some (Chunk ''bafkreigjgnhagphchecacccocpgbcogkhdcc.js'' ''import "./a.js"'' [''a.js''] [] None)
   \<and> includesStr ''import "./a.js"'' (basename ''a.js'' [])\<close>
proof -
  have \<open>map_of (fileMap importCycleResult) ''a.js''
       = Some ''bafkreigjgnhagphchecacccocpgcgbggglhcgfgjghgkghgogigbghhagigdgigfgdgbgdgdgdgpgdhaghgcgdgpghglgigegdgdcogkhdcc.js''\<close>
    by (simp add: importCycleResult_def)
  moreover have \<open>map_of (outBundle importCycleResult) ''bafkreigjgnhagphchecacccocpgbcogkhdcc.js''
       = Some (Chunk ''bafkreigjgnhagphchecacccocpgbcogkhdcc.js'' ''import "./a.js"'' [''a.js''] [] None)\<close>
    by (simp add: importCycleResult_def)
  moreover have \<open>includesStr ''import "./a.js"'' (basename ''a.js'' [])\<close>
    by code_simp
  ultimately show ?thesis using importCycle_run by simp
qed

text \<open>
  C3, amended.  After \<open>generateBundle\<close> a regular artifact (one that is no manifest file)
  is stored under its final name, which is the new name the rename map gives it or else
  its own name, with its content rewritten by exactly those entries of the rename map
  that were recorded before its turn in the order of processing, applied in insertion
  order; entries recorded at its turn or later are not applied to it.  This holds
  provided no other artifact was renamed to its old or to its final name, a new final
  name is not a name of the input bundle and, for a chunk, no renamed source map is paired
  with the final name.  Each step of the rewriting replaces every occurrence of the old
  base name by the new base name and leaves the stretches between the occurrences, which
  contain no occurrence, as they were (for an old base name that is not empty and a new
  base name without a dollar sign).
\<close>

theorem references_rewritten_at_turn:
  assumes g: "generateBundle cid b = Inr st'"
    and a: "map_of b f = Some item" "\<not> isManifestName f"
  shows "(let fm = fileMap st';
              f' = (case map_of fm f of None \<Rightarrow> f | Some new \<Rightarrow> new);
              fm1 = filter (\<lambda>e. precedes (regularFiles (topoSort b)) (fst e) f) fm
          in f \<notin> snd ` set fm \<longrightarrow> (\<forall>old. (old, f') \<in> set fm \<longrightarrow> old = f)
               \<longrightarrow> (f' \<noteq> f \<longrightarrow> f' \<notin> fst ` set b)
               \<longrightarrow> ((\<exists>n src. item = Asset n src) \<or> (\<forall>e \<in> set fm. \<not> pairedWith fm e f'))
               \<longrightarrow> prefix fm1 fm
                 \<and> map_of (outBundle st') f'
                     = Some (if f' = f then rewriteItem fm1 item
                             else setFileName f' (rewriteItem fm1 item)))
     \<and> (\<forall>pat repl s. pat \<noteq> [] \<longrightarrow> CHR ''$'' \<notin> set repl
           \<longrightarrow> (\<exists>ps. s = joinWith pat ps \<and> replaceAll pat repl s = joinWith repl ps
                  \<and> (\<forall>u \<in> set ps. \<not> includesStr u pat)))"
proof -
  have second: "\<forall>pat repl s. pat \<noteq> [] \<longrightarrow> CHR ''$'' \<notin> set repl
           \<longrightarrow> (\<exists>ps. s = joinWith pat ps \<and> replaceAll pat repl s = joinWith repl ps
                  \<and> (\<forall>u \<in> set ps. \<not> includesStr u pat))"
    using replaceAll_pieces by blast
  show ?thesis
    unfolding Let_def
    using regular_artifact_at_turn(1,4)[OF g a] second by blast
qed

theorem references_rewritten_at_turn_witness:
  \<open>generateBundle sampleCID importCycle = Inr importCycleResult
   \<and> map_of importCycle ''a.js'' = Some (Chunk ''a.js'' ''import "./b.js"'' [''b.js''] [] None)
   \<and> \<not> isManifestName ''a.js''
   \<and> map_of (fileMap importCycleResult) ''a.js''
       = Some ''bafkreigjgnhagphchecacccocpgcgbggglhcgfgjghgkghgogigbghhagigdgigfgdgbgdgdgdgpgdhaghgcgdgpghglgigegdgdcogkhdcc.js''
   \<and> filter (\<lambda>e. precedes (regularFiles (topoSort importCycle)) (fst e) ''a.js'')
         (fileMap importCycleResult)
       = [(''b.js'', ''bafkreigjgnhagphchecacccocpgbcogkhdcc.js'')]
   \<and> map_of (outBundle importCycleResult)
         ''bafkreigjgnhagphchecacccocpgcgbggglhcgfgjghgkghgogigbghhagigdgigfgdgbgdgdgdgpgdhaghgcgdgpghglgigegdgdcogkhdcc.js''
       = Some (setFileName
           ''bafkreigjgnhagphchecacccocpgcgbggglhcgfgjghgkghgogigbghhagigdgigfgdgbgdgdgdgpgdhaghgcgdgpghglgigegdgdcogkhdcc.js''
           (rewriteItem [(''b.js'', ''bafkreigjgnhagphchecacccocpgbcogkhdcc.js'')]
              (Chunk ''a.js'' ''import "./b.js"'' [''b.js''] [] None)))
   \<and> rewriteItem [(''b.js'', ''bafkreigjgnhagphchecacccocpgbcogkhdcc.js'')]
         (Chunk ''a.js'' ''import "./b.js"'' [''b.js''] [] None)
       = Chunk ''a.js'' ''import "./bafkreigjgnhagphchecacccocpgbcogkhdcc.js"'' [''b.js''] [] None
   \<and> (\<exists>ps. ''import "./b.js"'' = joinWith ''b.js'' ps
          \<and> replaceAll ''b.js'' ''bafkreigjgnhagphchecacccocpgbcogkhdcc.js'' ''import "./b.js"''
              = joinWith ''bafkreigjgnhagphchecacccocpgbcogkhdcc.js'' ps
          \<and> list_all (\<lambda>u. \<not> includesStr u ''b.js'') ps)\<close>
proof -
  let ?Na = "''bafkreigjgnhagphchecacccocpgcgbggglhcgfgjghgkghgogigbghhagigdgigfgdgbgdgdgdgpgdhaghgcgdgpghglgigegdgdcogkhdcc.js''"
  let ?Nb = "''bafkreigjgnhagphchecacccocpgbcogkhdcc.js''"
  let ?item = \<open>Chunk ''a.js'' ''import "./b.js"'' [''b.js''] [] None\<close>
  have l: "map_of importCycle ''a.js'' = Some ?item"
    by (simp add: importCycle_def)
  have n: "\<not> isManifestName ''a.js''" by code_simp
  have m: "map_of (fileMap importCycleResult) ''a.js'' = Some ?Na"
    by (simp add: importCycleResult_def)
  have flt: "filter (\<lambda>e. precedes (regularFiles (topoSort importCycle)) (fst e) ''a.js'')
         (fileMap importCycleResult) = [(''b.js'', ?Nb)]"
    by code_simp
  have h2: "''a.js'' \<notin> snd ` set (fileMap importCycleResult)"
    by (simp add: importCycleResult_def)
  have h1: "\<forall>old. (old, ?Na) \<in> set (fileMap importCycleResult) \<longrightarrow> old = ''a.js''"
    by (simp add: importCycleResult_def)
  have h3: "?Na \<noteq> ''a.js'' \<longrightarrow> ?Na \<notin> fst ` set importCycle"
    by (simp add: importCycle_def)
  have h4: "\<forall>e \<in> set (fileMap importCycleResult). \<not> pairedWith (fileMap importCycleResult) e ?Na"
    by (simp add: importCycleResult_def pairedWith_def endsWith_def)
  have r: \<open>rewriteItem [(''b.js'', ?Nb)] ?item
       = Chunk ''a.js'' ''import "./bafkreigjgnhagphchecacccocpgbcogkhdcc.js"'' [''b.js''] [] None\<close>
    by code_simp
  have p: "''b.js'' \<noteq> []" and q: "CHR ''$'' \<notin> set ?Nb" by simp_all
  note T = references_rewritten_at_turn[OF importCycle_run l n]
  from T m flt h1 h2 h3 h4
  have c1: "map_of (outBundle importCycleResult) ?Na
       = Some (setFileName ?Na (rewriteItem [(''b.js'', ?Nb)] ?item))"
    by (simp add: Let_def)
  from T p q
  have c2: \<open>\<exists>ps. ''import "./b.js"'' = joinWith ''b.js'' ps
          \<and> replaceAll ''b.js'' ?Nb ''import "./b.js"'' = joinWith ?Nb ps
          \<and> list_all (\<lambda>u. \<not> includesStr u ''b.js'') ps\<close>
    unfolding list_all_iff by blast
  from importCycle_run l n m flt c1 r c2 show ?thesis by blast
qed

lemma manifestBundle_run: "generateBundle (\<lambda>c. ''XYZ'') manifestBundle = Inr manifestResult"
  by code_simp

text \<open>
  C6.  The property does not hold of the code.  In the scenario the manifest is parsed,
  its serialised text with \<open>main.js\<close> replaced by \<open>XYZ.js\<close> is parsed again and merged into
  the manifest with \<open>Object.assign\<close>; the merge adds the key \<open>XYZ.js\<close> and keeps the key
  \<open>main.js\<close> with its old value.  After \<open>generateBundle\<close> the manifest, still under its
  own name, contains \<open>"file": "XYZ.js"\<close> and also still \<open>"file": "main.js"\<close>.
\<close>

theorem manifest_keeps_stale_entry:
  \<open>generateBundle (\<lambda>c. ''XYZ'') manifestBundle = Inr manifestResult
   \<and> map_of (fileMap manifestResult) ''main.js'' = Some ''XYZ.js''
   \<and> map_of (outBundle manifestResult) ''manifest.json''
       = Some (Asset ''manifest.json'' (Str manifestText))
   \<and> includesStr manifestText ''"file": "XYZ.js"''
   \<and> includesStr manifestText ''"file": "main.js"''\<close>
proof -
  have \<open>includesStr manifestText ''"file": "XYZ.js"''\<close> by code_simp
  moreover have \<open>includesStr manifestText ''"file": "main.js"''\<close> by code_simp
  ultimately show ?thesis
    using manifestBundle_run by (simp add: manifestResult_def)
qed









end
